theory Spec2Isabelle
  imports Main "HOL-Library.Word" "HOL-Library.Char_ord" "HOL-Library.AList"
begin

section \<open>The data model of package bencode\<close>

text \<open>
  \<^verbatim>\<open>type Kind int\<close> with the four constants of the source. A Go \<^verbatim>\<open>int\<close> is a 64-bit
  signed integer on the platforms the package is built for, so a kind is a 64-bit word:
  the type has more inhabitants than the four constants, as in the source.
\<close>

type_synonym Kind = "64 word"

definition String :: Kind where "String = 0"
definition Number :: Kind where "Number = 1"
definition Array :: Kind where "Array = 2"
definition Object :: Kind where "Object = 3"

text \<open>
  \<^verbatim>\<open>type Value struct { Kind; String_; Number; Array; Object }\<close>. The struct is recursive,
  so it is a datatype with one constructor whose arguments are the five fields in the
  order of the source; the selectors carry the names of the getter methods
  (\<^verbatim>\<open>GetString\<close>, \<^verbatim>\<open>GetNumber\<close>, \<^verbatim>\<open>GetArray\<close>, \<^verbatim>\<open>GetObject\<close>), which return the fields
  unchanged. A field left out of a Go composite literal holds its zero value: the empty
  string, 0, the nil slice and the nil map (a nil slice and a nil map range over no
  element, like empty ones; both are the empty list here).

  The pointers \<^verbatim>\<open>*Value\<close> held by a slice or a map are the values they point to: every
  constructor of the package stores the address of a fresh struct. A map
  \<^verbatim>\<open>map[string]*Value\<close> is an association list with one entry per key; the order of the
  list stands for the order in which one \<^verbatim>\<open>range\<close> loop visits the entries, which Go
  leaves unspecified. An assignment \<^verbatim>\<open>m[k] = v\<close> is \<^const>\<open>AList.update\<close>. A value is a
  finite tree: the values that the decoder and the helpers build share no struct and
  hold no cycle.
\<close>

datatype Value = Value (Kind: Kind) (GetString: string) (GetNumber: "64 word")
  (GetArray: "Value list") (GetObject: "(string \<times> Value) list")

text \<open>
  The errors of the package are built by \<^verbatim>\<open>errors.New\<close> from three messages:
  \<^verbatim>\<open>"syntax error"\<close>, \<^verbatim>\<open>"error character: <byte>"\<close> and
  \<^verbatim>\<open>"only support int, string, slice and map"\<close>.
\<close>

datatype error = SyntaxError | ErrorCharacter char | OnlySupport

text \<open>
  The two ways the package can panic: the explicit \<^verbatim>\<open>panic("impossible")\<close> of
  \<^verbatim>\<open>Prettify\<close> and \<^verbatim>\<open>Encode\<close>, and a failed type assertion \<^verbatim>\<open>in.(T)\<close> in the
  construction helpers.
\<close>

datatype panic = Impossible | TypeAssertion

section \<open>Decimal numerals of the Go library\<close>

text \<open>
  \<^verbatim>\<open>fmt.Sprintf("%v", n)\<close> on an integer prints its decimal numeral
  (\<^verbatim>\<open>strconv.FormatInt(n, 10)\<close>): no leading zero, a minus sign for a negative number.
\<close>

fun FormatUint :: "nat \<Rightarrow> string" where
  "FormatUint n =
     (if n < 10 then [char_of (48 + n)]
      else FormatUint (n div 10) @ [char_of (48 + n mod 10)])"

declare FormatUint.simps [simp del]

definition FormatInt :: "int \<Rightarrow> string" where
  "FormatInt i = (if i < 0 then CHR ''-'' # FormatUint (nat (- i)) else FormatUint (nat i))"

definition isDigit :: "char \<Rightarrow> bool" where
  "isDigit c \<longleftrightarrow> c \<ge> CHR ''0'' \<and> c \<le> CHR ''9''"

text \<open>
  \<^verbatim>\<open>strconv.ParseUint(s, 10, 64)\<close> and \<^verbatim>\<open>strconv.ParseInt(s, 10, 64)\<close>; \<open>None\<close> stands
  for a non-nil error (\<^verbatim>\<open>ErrSyntax\<close> on an empty string or a character that is not a
  digit, \<^verbatim>\<open>ErrRange\<close> on a number outside the 64-bit range). \<^verbatim>\<open>ParseInt\<close> strips one
  leading sign before it reads the digits.
\<close>

definition digitsValue :: "string \<Rightarrow> nat" where
  "digitsValue ds = foldl (\<lambda>n c. n * 10 + (of_char c - 48)) 0 ds"

definition ParseUint :: "string \<Rightarrow> nat option" where
  "ParseUint s =
     (if s = [] \<or> \<not> list_all isDigit s then None
      else if digitsValue s \<ge> 2 ^ 64 then None
      else Some (digitsValue s))"

definition ParseInt :: "string \<Rightarrow> 64 word option" where
  "ParseInt s =
     (if s = [] then None
      else
        let neg = (hd s = CHR ''-'');
            s' = (if hd s = CHR ''+'' \<or> hd s = CHR ''-'' then tl s else s)
        in case ParseUint s' of
             None \<Rightarrow> None
           | Some un \<Rightarrow>
               if \<not> neg \<and> un \<ge> 2 ^ 63 then None
               else if neg \<and> un > 2 ^ 63 then None
               else Some (if neg then - word_of_nat un else word_of_nat un))"

section \<open>Prettify and Encode\<close>

definition toBencodeString :: "string \<Rightarrow> string" where
  "toBencodeString in' = FormatInt (int (length in')) @ '':'' @ in'"

text \<open>
  The test \<^verbatim>\<open>len(prettify) > 0 && prettify[len(prettify)-1] == ','\<close> and the slice
  \<^verbatim>\<open>prettify[:len(prettify)-1]\<close> that follows it.
\<close>

definition stripComma :: "string \<Rightarrow> string" where
  "stripComma prettify =
     (if length prettify > 0 \<and> last prettify = CHR '','' then butlast prettify
      else prettify)"

text \<open>
  \<^verbatim>\<open>Prettify\<close> and \<^verbatim>\<open>Encode\<close> return a string or panic. Their \<^verbatim>\<open>for\<close> loops over the
  slice and the map are the functions with suffix \<open>_array\<close> and \<open>_object\<close>: the first
  argument is the string built so far, the second the elements still to visit. A panic
  in a nested call unwinds the callers. \<open>CHR 0x22\<close> is the double quote.
\<close>

fun Prettify :: "Value \<Rightarrow> panic + string"
  and Prettify_array :: "string \<Rightarrow> Value list \<Rightarrow> panic + string"
  and Prettify_object :: "string \<Rightarrow> (string \<times> Value) list \<Rightarrow> panic + string"
where
  "Prettify (Value kind string' number array object) =
     (if kind = String then Inr ([CHR 0x22] @ string' @ [CHR 0x22])
      else if kind = Number then Inr (FormatInt (sint number))
      else if kind = Array then
        (case Prettify_array ''['' array of
           Inl p \<Rightarrow> Inl p
         | Inr prettify \<Rightarrow> Inr (stripComma prettify @ '']''))
      else if kind = Object then
        (case Prettify_object ''{'' object of
           Inl p \<Rightarrow> Inl p
         | Inr prettify \<Rightarrow> Inr (stripComma prettify @ ''}''))
      else Inl Impossible)"
| "Prettify_array prettify [] = Inr prettify"
| "Prettify_array prettify (a # as) =
     (case Prettify a of
        Inl p \<Rightarrow> Inl p
      | Inr s \<Rightarrow> Prettify_array (prettify @ s @ '','') as)"
| "Prettify_object prettify [] = Inr prettify"
| "Prettify_object prettify ((k, v) # kvs) =
     (case Prettify v of
        Inl p \<Rightarrow> Inl p
      | Inr s \<Rightarrow>
          Prettify_object (prettify @ [CHR 0x22] @ k @ [CHR 0x22] @ '': '' @ s @ '','') kvs)"

fun Encode :: "Value \<Rightarrow> panic + string"
  and Encode_array :: "string \<Rightarrow> Value list \<Rightarrow> panic + string"
  and Encode_object :: "string \<Rightarrow> (string \<times> Value) list \<Rightarrow> panic + string"
where
  "Encode (Value kind string' number array object) =
     (if kind = String then Inr (toBencodeString string')
      else if kind = Number then Inr (''i'' @ FormatInt (sint number) @ ''e'')
      else if kind = Array then
        (case Encode_array ''l'' array of
           Inl p \<Rightarrow> Inl p
         | Inr prettify \<Rightarrow> Inr (prettify @ ''e''))
      else if kind = Object then
        (case Encode_object ''d'' object of
           Inl p \<Rightarrow> Inl p
         | Inr prettify \<Rightarrow> Inr (prettify @ ''e''))
      else Inl Impossible)"
| "Encode_array prettify [] = Inr prettify"
| "Encode_array prettify (a # as) =
     (case Encode a of
        Inl p \<Rightarrow> Inl p
      | Inr s \<Rightarrow> Encode_array (prettify @ s) as)"
| "Encode_object prettify [] = Inr prettify"
| "Encode_object prettify ((k, v) # kvs) =
     (case Encode v of
        Inl p \<Rightarrow> Inl p
      | Inr s \<Rightarrow> Encode_object (prettify @ toBencodeString k @ s) kvs)"

text \<open>
  The values of the data model: the kind is one of the four constants, and so it is for
  every element of the slice and of the map, at any depth.
\<close>

fun valid :: "Value \<Rightarrow> bool"
  and valid_array :: "Value list \<Rightarrow> bool"
  and valid_object :: "(string \<times> Value) list \<Rightarrow> bool"
where
  "valid (Value kind string' number array object) \<longleftrightarrow>
     (kind = String \<or> kind = Number \<or> kind = Array \<or> kind = Object) \<and>
     valid_array array \<and> valid_object object"
| "valid_array [] \<longleftrightarrow> True"
| "valid_array (a # as) \<longleftrightarrow> valid a \<and> valid_array as"
| "valid_object [] \<longleftrightarrow> True"
| "valid_object ((k, v) # kvs) \<longleftrightarrow> valid v \<and> valid_object kvs"

section \<open>Construction helpers\<close>

definition NewString :: "string \<Rightarrow> Value" where
  "NewString in' = Value String in' 0 [] []"

definition NewNumber :: "64 word \<Rightarrow> Value" where
  "NewNumber in' = Value Number [] in' [] []"

text \<open>
  The dynamic values an \<^verbatim>\<open>interface{}\<close> can hold, by the cases of the type switch:
  \<^verbatim>\<open>int\<close>, \<^verbatim>\<open>string\<close>, \<^verbatim>\<open>[]interface{}\<close>, \<^verbatim>\<open>map[string]interface{}\<close>, and every other
  dynamic type (\<^verbatim>\<open>nil\<close>, \<^verbatim>\<open>bool\<close>, \<^verbatim>\<open>float64\<close>, \<^verbatim>\<open>int64\<close>, \<^verbatim>\<open>[]int\<close>, ...), which the
  switch sends to its \<^verbatim>\<open>default\<close> case.
\<close>

datatype interface =
    GoInt "64 word"
  | GoString string
  | GoSlice "interface list"
  | GoMap "(string \<times> interface) list"
  | GoOther

text \<open>
  The result of a helper is a panic, or the pair \<^verbatim>\<open>(nil, err)\<close> (\<open>Inr (Inl err)\<close>), or
  the pair \<^verbatim>\<open>(value, nil)\<close> (\<open>Inr (Inr value)\<close>). The assertions
  \<^verbatim>\<open>in.([]interface{})\<close> and \<^verbatim>\<open>in.(map[string]interface{})\<close> at the head of the loops
  panic on any other dynamic type. The functions with suffix \<open>_loop\<close> are the
  \<^verbatim>\<open>range\<close> loops: \<open>newValue\<close> is the slice or map built so far.
\<close>

fun NewArray :: "interface \<Rightarrow> panic + error + Value"
  and NewArray_loop :: "Value list \<Rightarrow> interface list \<Rightarrow> panic + error + Value"
  and NewObject :: "interface \<Rightarrow> panic + error + Value"
  and NewObject_loop ::
    "(string \<times> Value) list \<Rightarrow> (string \<times> interface) list \<Rightarrow> panic + error + Value"
where
  "NewArray (GoSlice vs) = NewArray_loop [] vs"
| "NewArray (GoInt n) = Inl TypeAssertion"
| "NewArray (GoString s) = Inl TypeAssertion"
| "NewArray (GoMap m) = Inl TypeAssertion"
| "NewArray GoOther = Inl TypeAssertion"
| "NewArray_loop newValue [] = Inr (Inr (Value Array [] 0 newValue []))"
| "NewArray_loop newValue (GoInt n # vs) = NewArray_loop (newValue @ [NewNumber n]) vs"
| "NewArray_loop newValue (GoString s # vs) = NewArray_loop (newValue @ [NewString s]) vs"
| "NewArray_loop newValue (GoSlice xs # vs) =
     (case NewArray (GoSlice xs) of
        Inl p \<Rightarrow> Inl p
      | Inr (Inl err) \<Rightarrow> Inr (Inl err)
      | Inr (Inr newArray) \<Rightarrow> NewArray_loop (newValue @ [newArray]) vs)"
| "NewArray_loop newValue (GoMap m # vs) =
     (case NewObject (GoMap m) of
        Inl p \<Rightarrow> Inl p
      | Inr (Inl err) \<Rightarrow> Inr (Inl err)
      | Inr (Inr newObject) \<Rightarrow> NewArray_loop (newValue @ [newObject]) vs)"
| "NewArray_loop newValue (GoOther # vs) = Inr (Inl OnlySupport)"
| "NewObject (GoMap kvs) = NewObject_loop [] kvs"
| "NewObject (GoInt n) = Inl TypeAssertion"
| "NewObject (GoString s) = Inl TypeAssertion"
| "NewObject (GoSlice vs) = Inl TypeAssertion"
| "NewObject GoOther = Inl TypeAssertion"
| "NewObject_loop newValue [] = Inr (Inr (Value Object [] 0 [] newValue))"
| "NewObject_loop newValue ((k, GoInt n) # kvs) =
     NewObject_loop (AList.update k (NewNumber n) newValue) kvs"
| "NewObject_loop newValue ((k, GoString s) # kvs) =
     NewObject_loop (AList.update k (NewString s) newValue) kvs"
| "NewObject_loop newValue ((k, GoSlice xs) # kvs) =
     (case NewArray (GoSlice xs) of
        Inl p \<Rightarrow> Inl p
      | Inr (Inl err) \<Rightarrow> Inr (Inl err)
      | Inr (Inr newArray) \<Rightarrow> NewObject_loop (AList.update k newArray newValue) kvs)"
| "NewObject_loop newValue ((k, GoMap m) # kvs) =
     (case NewObject (GoMap m) of
        Inl p \<Rightarrow> Inl p
      | Inr (Inl err) \<Rightarrow> Inr (Inl err)
      | Inr (Inr newObject) \<Rightarrow> NewObject_loop (AList.update k newObject newValue) kvs)"
| "NewObject_loop newValue ((k, GoOther) # kvs) = Inr (Inl OnlySupport)"

text \<open>
  A host value holds an unsupported shape when it is, or holds at any depth, a value of a
  dynamic type other than the four that the type switch names.
\<close>

fun unsupported :: "interface \<Rightarrow> bool"
  and unsupported_slice :: "interface list \<Rightarrow> bool"
  and unsupported_map :: "(string \<times> interface) list \<Rightarrow> bool"
where
  "unsupported (GoInt n) \<longleftrightarrow> False"
| "unsupported (GoString s) \<longleftrightarrow> False"
| "unsupported (GoSlice vs) \<longleftrightarrow> unsupported_slice vs"
| "unsupported (GoMap kvs) \<longleftrightarrow> unsupported_map kvs"
| "unsupported GoOther \<longleftrightarrow> True"
| "unsupported_slice [] \<longleftrightarrow> False"
| "unsupported_slice (v # vs) \<longleftrightarrow> unsupported v \<or> unsupported_slice vs"
| "unsupported_map [] \<longleftrightarrow> False"
| "unsupported_map ((k, v) # kvs) \<longleftrightarrow> unsupported v \<or> unsupported_map kvs"

section \<open>The decoder\<close>

text \<open>
  \<^verbatim>\<open>type Context struct { b string }\<close>: the cursor is the suffix of the input not yet
  consumed. A method that advances the cursor returns the new one beside its result.
  After an error the cursor is read again in one place only, the test for the closing
  \<^verbatim>\<open>e\<close> in the two loops, where the failed \<^verbatim>\<open>RemoveACharacter\<close> has left it unchanged;
  so an error carries no cursor.
\<close>

type_synonym Context = string

definition RemoveACharacter :: "char \<Rightarrow> Context \<Rightarrow> error + Context" where
  "RemoveACharacter c b =
     (if length b < 1 \<or> hd b \<noteq> c then Inl SyntaxError else Inr (tl b))"

definition PeekACharacter :: "Context \<Rightarrow> error + char" where
  "PeekACharacter b = (if length b < 1 then Inl SyntaxError else Inr (hd b))"

text \<open>
  The loop \<^verbatim>\<open>for p < len(ctx.b) && isDigit(ctx.b[p]) { p++ }\<close>: the length of the
  longest run of digits at the head of the cursor.
\<close>

fun digitRun :: "string \<Rightarrow> nat" where
  "digitRun [] = 0"
| "digitRun (c # cs) = (if isDigit c then Suc (digitRun cs) else 0)"

text \<open>
  \<^verbatim>\<open>Context.GetString\<close>. The slice \<^verbatim>\<open>ctx.b[:Len]\<close> would panic on a negative
  \<^verbatim>\<open>Len\<close>; the run handed to \<^verbatim>\<open>ParseInt\<close> holds digits only, so \<^verbatim>\<open>Len\<close> is never
  negative (lemma \<open>ParseInt_digitRun_nonneg\<close> below).
\<close>

definition Context_GetString :: "Context \<Rightarrow> error + string \<times> Context" where
  "Context_GetString b =
     (let p = digitRun b in
      case ParseInt (take p b) of
        None \<Rightarrow> Inl SyntaxError
      | Some Len \<Rightarrow>
         (case RemoveACharacter CHR '':'' (drop p b) of
            Inl _ \<Rightarrow> Inl SyntaxError
          | Inr b' \<Rightarrow>
              if int (length b') < sint Len then Inl SyntaxError
              else Inr (take (nat (sint Len)) b', drop (nat (sint Len)) b')))"

definition ParseString :: "Context \<Rightarrow> error + Value \<times> Context" where
  "ParseString b =
     (case Context_GetString b of
        Inl err \<Rightarrow> Inl err
      | Inr (string', b') \<Rightarrow> Inr (Value String string' 0 [] [], b'))"

definition ParseNumber :: "Context \<Rightarrow> error + Value \<times> Context" where
  "ParseNumber b =
     (case RemoveACharacter CHR ''i'' b of
        Inl _ \<Rightarrow> Inl SyntaxError
      | Inr b1 \<Rightarrow>
         (let p = digitRun b1 in
          case ParseInt (take p b1) of
            None \<Rightarrow> Inl SyntaxError
          | Some number \<Rightarrow>
             (case RemoveACharacter CHR ''e'' (drop p b1) of
                Inl _ \<Rightarrow> Inl SyntaxError
              | Inr b2 \<Rightarrow> Inr (Value Number [] number [] [], b2))))"

text \<open>
  \<^verbatim>\<open>ParseValue\<close>, \<^verbatim>\<open>ParseArray\<close> and \<^verbatim>\<open>ParseObject\<close> call each other. The bodies of the
  two \<^verbatim>\<open>for { ... }\<close> loops are \<open>ParseArray_loop\<close> and \<open>ParseObject_loop\<close>, whose first
  argument is \<^verbatim>\<open>value.Array\<close>, respectively \<^verbatim>\<open>value.Object\<close>, as built so far. Each loop
  parses before it tests for the closing \<^verbatim>\<open>e\<close>, as the source does. The recursion is
  not structural: it is a \<^theory_text>\<open>function\<close>, and its termination is proved below.
\<close>

function (domintros) ParseValue :: "Context \<Rightarrow> error + Value \<times> Context"
  and ParseArray :: "Context \<Rightarrow> error + Value \<times> Context"
  and ParseArray_loop :: "Value list \<Rightarrow> Context \<Rightarrow> error + Value \<times> Context"
  and ParseObject :: "Context \<Rightarrow> error + Value \<times> Context"
  and ParseObject_loop :: "(string \<times> Value) list \<Rightarrow> Context \<Rightarrow> error + Value \<times> Context"
where
  "ParseValue b =
     (case PeekACharacter b of
        Inl err \<Rightarrow> Inl err
      | Inr c \<Rightarrow>
          if c \<ge> CHR ''0'' \<and> c \<le> CHR ''9'' then ParseString b
          else if c = CHR ''i'' then ParseNumber b
          else if c = CHR ''l'' then ParseArray b
          else if c = CHR ''d'' then ParseObject b
          else Inl (ErrorCharacter c))"
| "ParseArray b =
     (case RemoveACharacter CHR ''l'' b of
        Inl _ \<Rightarrow> Inl SyntaxError
      | Inr b' \<Rightarrow> ParseArray_loop [] b')"
| "ParseArray_loop array b =
     (case ParseValue b of
        Inl err \<Rightarrow> Inl err
      | Inr (ele, b') \<Rightarrow>
         (case RemoveACharacter CHR ''e'' b' of
            Inr b'' \<Rightarrow> Inr (Value Array [] 0 (array @ [ele]) [], b'')
          | Inl _ \<Rightarrow> ParseArray_loop (array @ [ele]) b'))"
| "ParseObject b =
     (case RemoveACharacter CHR ''d'' b of
        Inl _ \<Rightarrow> Inl SyntaxError
      | Inr b' \<Rightarrow> ParseObject_loop [] b')"
| "ParseObject_loop object b =
     (case Context_GetString b of
        Inl err \<Rightarrow> Inl err
      | Inr (key, b1) \<Rightarrow>
         (case ParseValue b1 of
            Inl err \<Rightarrow> Inl err
          | Inr (attribute, b2) \<Rightarrow>
             (case RemoveACharacter CHR ''e'' b2 of
                Inr b3 \<Rightarrow> Inr (Value Object [] 0 [] (AList.update key attribute object), b3)
              | Inl _ \<Rightarrow> ParseObject_loop (AList.update key attribute object) b2)))"
  by pat_completeness auto

text \<open>\<^verbatim>\<open>Decode\<close> starts a cursor on the whole input and drops it at the end.\<close>

definition Decode :: "string \<Rightarrow> error + Value" where
  "Decode b = (case ParseValue b of Inl err \<Rightarrow> Inl err | Inr (v, _) \<Rightarrow> Inr v)"

section \<open>The wire format\<close>

text \<open>
  The grammar of section 6 of the specification, on byte strings:

  \<^verbatim>\<open>value      = bytestring / integer / list / dictionary\<close>

  \<^verbatim>\<open>bytestring = 1*DIGIT ":" <length raw bytes>\<close>

  \<^verbatim>\<open>integer    = "i" 1*DIGIT "e"\<close>

  \<^verbatim>\<open>list       = "l" *value "e"\<close>

  \<^verbatim>\<open>dictionary = "d" *(bytestring value) "e"\<close>

  It is written from the specification, not from the decoder, and puts no bound on a
  numeral. \<open>bytestring k\<close>: \<open>k\<close> is a non-empty run of digits, a colon, and as many bytes
  as the run denotes in base 10.
\<close>

definition bytestring :: "string \<Rightarrow> bool" where
  "bytestring k \<longleftrightarrow>
     (let p = digitRun k
      in 0 < p \<and> p < length k \<and> k ! p = CHR '':'' \<and>
         digitsValue (take p k) = length k - Suc p)"

text \<open>\<open>entries\<close> writes a sequence of pairs of byte sequences one after the other.\<close>

definition entries :: "(string \<times> string) list \<Rightarrow> string" where
  "entries es = concat (map (\<lambda>e. fst e @ snd e) es)"

text \<open>
  \<open>bencode p\<close>: \<open>p\<close> is a \<^verbatim>\<open>value\<close> of the grammar. A list is \<^verbatim>\<open>l\<close>, any number of values
  (none, for \<^verbatim>\<open>le\<close>) and \<^verbatim>\<open>e\<close>; a dictionary is \<^verbatim>\<open>d\<close>, any number of pairs of a
  \<^verbatim>\<open>bytestring\<close> and a value (none, for \<^verbatim>\<open>de\<close>) and \<^verbatim>\<open>e\<close>.
\<close>

inductive bencode :: "string \<Rightarrow> bool" where
  bytestring: "bytestring p \<Longrightarrow> bencode p"
| integer: "ds \<noteq> [] \<Longrightarrow> list_all isDigit ds \<Longrightarrow> bencode (CHR ''i'' # ds @ ''e'')"
| list: "\<forall>p \<in> set ps. bencode p \<Longrightarrow> bencode (CHR ''l'' # concat ps @ ''e'')"
| dictionary:
    "\<forall>e \<in> set es. bytestring (fst e) \<and> bencode (snd e) \<Longrightarrow>
     bencode (CHR ''d'' # entries es @ ''e'')"

text \<open>
  \<open>unterminated b\<close>: \<open>b\<close> is a list or a dictionary of the grammar whose closing \<^verbatim>\<open>e\<close> is
  missing at the end of the input. Either the container itself lacks its \<^verbatim>\<open>e\<close>
  (\<^verbatim>\<open>l4:spam\<close>, \<^verbatim>\<open>lle\<close>, \<^verbatim>\<open>d1:ale\<close>), or its last element, after any number of values
  (of pairs, and a key), is an unterminated container in turn (\<^verbatim>\<open>ll4:spam\<close>,
  \<^verbatim>\<open>d3:cowl4:spam\<close>).
\<close>

inductive unterminated :: "string \<Rightarrow> bool" where
  list: "\<forall>p \<in> set ps. bencode p \<Longrightarrow> unterminated (CHR ''l'' # concat ps)"
| list_inner:
    "\<forall>p \<in> set ps. bencode p \<Longrightarrow> unterminated u \<Longrightarrow>
     unterminated (CHR ''l'' # concat ps @ u)"
| dict:
    "\<forall>e \<in> set es. bytestring (fst e) \<and> bencode (snd e) \<Longrightarrow>
     unterminated (CHR ''d'' # entries es)"
| dict_inner:
    "\<forall>e \<in> set es. bytestring (fst e) \<and> bencode (snd e) \<Longrightarrow> bytestring k \<Longrightarrow>
     unterminated u \<Longrightarrow> unterminated (CHR ''d'' # entries es @ k @ u)"

text \<open>
  \<open>readable p\<close>: \<open>p\<close> is a value of the grammar within the bounds of the host: every
  numeral of an integer is below \<open>2 ^ 63\<close>, every byte string is shorter than \<open>2 ^ 63\<close>
  bytes (the length of a Go string is an \<^verbatim>\<open>int\<close>), and every list and every dictionary
  holds at least one element. The decoder reads these values (lemma \<open>readable_reads\<close>);
  it rejects the numerals beyond the bound, as the specification says, and the empty
  containers (claim C1).
\<close>

inductive readable :: "string \<Rightarrow> bool" where
  bytestring: "bytestring p \<Longrightarrow> length p < 2 ^ 63 \<Longrightarrow> readable p"
| integer:
    "ds \<noteq> [] \<Longrightarrow> list_all isDigit ds \<Longrightarrow> digitsValue ds < 2 ^ 63 \<Longrightarrow>
     readable (CHR ''i'' # ds @ ''e'')"
| list: "ps \<noteq> [] \<Longrightarrow> \<forall>p \<in> set ps. readable p \<Longrightarrow> readable (CHR ''l'' # concat ps @ ''e'')"
| dictionary:
    "es \<noteq> [] \<Longrightarrow>
     \<forall>e \<in> set es. bytestring (fst e) \<and> length (fst e) < 2 ^ 63 \<and> readable (snd e) \<Longrightarrow>
     readable (CHR ''d'' # entries es @ ''e'')"

section \<open>Runs of the decoder that the proofs speak of\<close>

text \<open>
  The notions of this section describe runs of the decoder. They serve the proofs and
  the lemmas on what the decoder reads; the inputs of the grammar are \<open>bencode\<close> and
  \<open>unterminated\<close> above. \<open>reads p v\<close>: started on \<open>p\<close>, \<open>ParseValue\<close> returns \<open>v\<close> and an
  empty cursor.
\<close>

definition reads :: "string \<Rightarrow> Value \<Rightarrow> bool" where
  "reads p v \<longleftrightarrow> ParseValue p = Inr (v, [])"

text \<open>
  \<open>reads_entry e kv\<close>: started on the first component of \<open>e\<close>, \<open>Context.GetString\<close>
  returns the key of \<open>kv\<close> and an empty cursor, and \<open>ParseValue\<close> reads the second
  component as the value of \<open>kv\<close>. \<open>store\<close> is the sequence of assignments
  \<^verbatim>\<open>value.Object[key] = attribute\<close> that the loop of \<open>ParseObject\<close> performs.
\<close>

definition reads_entry :: "string \<times> string \<Rightarrow> string \<times> Value \<Rightarrow> bool" where
  "reads_entry e kv \<longleftrightarrow>
     Context_GetString (fst e) = Inr (fst kv, []) \<and> ParseValue (snd e) = Inr (snd kv, [])"

definition store ::
  "(string \<times> Value) list \<Rightarrow> (string \<times> Value) list \<Rightarrow> (string \<times> Value) list" where
  "store kvs object = fold (\<lambda>kv. AList.update (fst kv) (snd kv)) kvs object"

text \<open>
  The scalar values: a byte string (of a length that a Go string can have), or a
  non-negative integer.
\<close>

definition scalar :: "Value \<Rightarrow> bool" where
  "scalar v \<longleftrightarrow>
     (\<exists>s. v = NewString s \<and> length s < 2 ^ 63) \<or> (\<exists>n. v = NewNumber n \<and> 0 \<le> sint n)"

text \<open>
  \<open>outcome bad r\<close>: the result \<open>r\<close> of a helper is the error
  \<^verbatim>\<open>"only support int, string, slice and map"\<close> when \<open>bad\<close> holds, and a value otherwise;
  it is never a panic.
\<close>

definition outcome :: "bool \<Rightarrow> panic + error + Value \<Rightarrow> bool" where
  "outcome bad r \<longleftrightarrow> (if bad then r = Inr (Inl OnlySupport) else (\<exists>v. r = Inr (Inr v)))"

text \<open>
  \<open>cut whole part t\<close> relates the result \<open>whole\<close> of a parsing function on an input
  \<open>b @ t\<close> to its result \<open>part\<close> on \<open>b\<close> alone, when the first is a success: if the parse
  has left the bytes \<open>t\<close> untouched, it does the same on \<open>b\<close>; if it has consumed some of
  them, the parse of \<open>b\<close> runs out of input and gives the syntax error.
\<close>

definition cut :: "error + Value \<times> Context \<Rightarrow> error + Value \<times> Context \<Rightarrow> string \<Rightarrow> bool" where
  "cut whole part t \<longleftrightarrow>
     (\<forall>v r. whole = Inr (v, r) \<longrightarrow>
        (length t \<le> length r \<longrightarrow> (\<exists>y. r = y @ t \<and> part = Inr (v, y))) \<and>
        (length r < length t \<longrightarrow> part = Inl SyntaxError))"

text \<open>
  \<open>uniform f\<close>: whatever bytes follow, the parse \<open>f\<close> has one outcome: it returns one
  value and leaves exactly the bytes that follow, or it fails with the syntax error, or
  it fails with \<^verbatim>\<open>error character: 101\<close>, the error of \<open>ParseValue\<close> on a closing \<^verbatim>\<open>e\<close>.
\<close>

definition uniform :: "(string \<Rightarrow> error + Value \<times> Context) \<Rightarrow> bool" where
  "uniform f \<longleftrightarrow>
     (\<exists>v. \<forall>t. f t = Inr (v, t)) \<or>
     (\<forall>t. f t = Inl SyntaxError) \<or>
     (\<forall>t. f t = Inl (ErrorCharacter CHR ''e''))"

text \<open>
  \<open>decided p\<close>: the outcome of \<open>ParseValue\<close> on an input that starts with \<open>p\<close> does not
  depend on what follows \<open>p\<close>, and \<open>p\<close> starts with a byte other than \<^verbatim>\<open>e\<close>.
  \<open>decided_key k\<close> is the same of \<open>Context.GetString\<close>, which fails with the syntax error
  only. Every value of the grammar is decided (lemma \<open>bencode_decided\<close>), and so is
  every \<^verbatim>\<open>bytestring\<close> as a key.
\<close>

definition decided :: "string \<Rightarrow> bool" where
  "decided p \<longleftrightarrow> uniform (\<lambda>t. ParseValue (p @ t)) \<and> p \<noteq> [] \<and> hd p \<noteq> CHR ''e''"

definition decided_key :: "string \<Rightarrow> bool" where
  "decided_key k \<longleftrightarrow>
     ((\<exists>s. \<forall>t. Context_GetString (k @ t) = Inr (s, t)) \<or>
      (\<forall>t. Context_GetString (k @ t) = Inl SyntaxError)) \<and>
     k \<noteq> [] \<and> isDigit (hd k)"

text \<open>
  \<open>fails r\<close>: the result \<open>r\<close> of a parsing function is one of the two errors above.
\<close>

definition fails :: "error + Value \<times> Context \<Rightarrow> bool" where
  "fails r \<longleftrightarrow> r = Inl SyntaxError \<or> r = Inl (ErrorCharacter CHR ''e'')"

text \<open>
  The measure of the termination proof: three times the length of the cursor, plus 1 for \<open>ParseValue\<close> (it hands
  the same cursor to \<open>ParseArray\<close> and \<open>ParseObject\<close>) and plus 2 for the loops (they
  hand the same cursor to \<open>ParseValue\<close>; they are entered on a cursor one byte shorter).
\<close>

definition Parse_measure ::
  "(Context + Context) + (Value list \<times> Context) + Context + ((string \<times> Value) list \<times> Context)
     \<Rightarrow> nat" where
  "Parse_measure x =
     (case x of
        Inl (Inl b) \<Rightarrow> 3 * length b + 1
      | Inl (Inr b) \<Rightarrow> 3 * length b
      | Inr (Inl (array, b)) \<Rightarrow> 3 * length b + 2
      | Inr (Inr (Inl b)) \<Rightarrow> 3 * length b
      | Inr (Inr (Inr (object, b))) \<Rightarrow> 3 * length b + 2)"

section \<open>Termination of the decoder\<close>

text \<open>
  A successful \<open>RemoveACharacter\<close> removes exactly the character asked for.
\<close>

lemma RemoveACharacter_Inr: "RemoveACharacter c b = Inr b' \<longleftrightarrow> b = c # b'"
  by (cases b) (auto simp: RemoveACharacter_def)

lemma RemoveACharacter_Inl:
  "RemoveACharacter c b = Inl e \<longleftrightarrow> e = SyntaxError \<and> (b = [] \<or> hd b \<noteq> c)"
  by (cases b) (auto simp: RemoveACharacter_def)

lemma drop_Cons_shorter: "drop p b = c # b' \<Longrightarrow> length b' < length b"
proof -
  assume "drop p b = c # b'"
  then have "length (drop p b) = Suc (length b')" by simp
  then show ?thesis by simp
qed

lemma Context_GetString_shorter:
  "Context_GetString b = Inr (s, r) \<Longrightarrow> length r < length b"
  by (auto simp: Context_GetString_def Let_def RemoveACharacter_Inr
      split: option.splits sum.splits if_splits dest!: drop_Cons_shorter)

lemma ParseString_shorter: "ParseString b = Inr (v, r) \<Longrightarrow> length r < length b"
  by (auto simp: ParseString_def split: sum.splits dest: Context_GetString_shorter)

lemma ParseNumber_shorter: "ParseNumber b = Inr (v, r) \<Longrightarrow> length r < length b"
  by (auto simp: ParseNumber_def Let_def RemoveACharacter_Inr
      split: option.splits sum.splits dest!: drop_Cons_shorter)

text \<open>
  The recursive call at the end of a loop body starts where a nested call has stopped,
  so termination rests on a property of the results: on every argument on which the
  functions are defined, a successful parse returns a cursor strictly shorter than the
  one it was given.
\<close>

lemma Parse_shorter_dom:
  "ParseValue_ParseArray_ParseArray_loop_ParseObject_ParseObject_loop_dom (Inl (Inl b1)) \<Longrightarrow>
     (\<forall>v r. ParseValue b1 = Inr (v, r) \<longrightarrow> length r < length b1)"
  "ParseValue_ParseArray_ParseArray_loop_ParseObject_ParseObject_loop_dom (Inl (Inr b2)) \<Longrightarrow>
     (\<forall>v r. ParseArray b2 = Inr (v, r) \<longrightarrow> length r < length b2)"
  "ParseValue_ParseArray_ParseArray_loop_ParseObject_ParseObject_loop_dom
     (Inr (Inl (array, b3))) \<Longrightarrow>
     (\<forall>v r. ParseArray_loop array b3 = Inr (v, r) \<longrightarrow> length r < length b3)"
  "ParseValue_ParseArray_ParseArray_loop_ParseObject_ParseObject_loop_dom
     (Inr (Inr (Inl b4))) \<Longrightarrow>
     (\<forall>v r. ParseObject b4 = Inr (v, r) \<longrightarrow> length r < length b4)"
  "ParseValue_ParseArray_ParseArray_loop_ParseObject_ParseObject_loop_dom
     (Inr (Inr (Inr (object, b5)))) \<Longrightarrow>
     (\<forall>v r. ParseObject_loop object b5 = Inr (v, r) \<longrightarrow> length r < length b5)"
proof (induct rule: ParseValue_ParseArray_ParseArray_loop_ParseObject_ParseObject_loop.pinduct)
  case (1 b)
  show ?case
  proof (intro allI impI)
    fix v r
    assume res: "ParseValue b = Inr (v, r)"
    then obtain c where c: "PeekACharacter b = Inr c"
      by (cases "PeekACharacter b") (simp_all add: ParseValue.psimps [OF "1.hyps"(1)])
    note eq = res [unfolded ParseValue.psimps [OF "1.hyps"(1)] c, simplified]
    show "length r < length b"
    proof (cases "CHR ''0'' \<le> c \<and> c \<le> CHR ''9''")
      case True
      with eq show ?thesis by (simp add: ParseString_shorter)
    next
      case nd: False
      show ?thesis
      proof (cases "c = CHR ''i''")
        case True
        with eq nd show ?thesis by (simp add: ParseNumber_shorter)
      next
        case ni: False
        show ?thesis
        proof (cases "c = CHR ''l''")
          case True
          with eq nd ni have "ParseArray b = Inr (v, r)" by simp
          with "1.hyps"(2) [OF c nd ni True] show ?thesis by blast
        next
          case nl: False
          show ?thesis
          proof (cases "c = CHR ''d''")
            case True
            with eq nd ni nl have "ParseObject b = Inr (v, r)" by simp
            with "1.hyps"(3) [OF c nd ni nl True] show ?thesis by blast
          next
            case False
            with eq nd ni nl show ?thesis by simp
          qed
        qed
      qed
    qed
  qed
next
  case (2 b)
  show ?case
  proof (intro allI impI)
    fix v r
    assume res: "ParseArray b = Inr (v, r)"
    then obtain b' where b': "RemoveACharacter CHR ''l'' b = Inr b'"
      by (cases "RemoveACharacter CHR ''l'' b")
        (simp_all add: ParseArray.psimps [OF "2.hyps"(1)])
    with res have "ParseArray_loop [] b' = Inr (v, r)"
      by (simp add: ParseArray.psimps [OF "2.hyps"(1)])
    with "2.hyps"(2) [OF b'] have "length r < length b'" by blast
    moreover from b' have "length b' < length b" by (simp add: RemoveACharacter_Inr)
    ultimately show "length r < length b" by simp
  qed
next
  case (3 array b)
  show ?case
  proof (intro allI impI)
    fix v r
    assume res: "ParseArray_loop array b = Inr (v, r)"
    then obtain ele b' where pv: "ParseValue b = Inr (ele, b')"
      by (cases "ParseValue b") (auto simp: ParseArray_loop.psimps [OF "3.hyps"(1)])
    with "3.hyps"(2) have lt: "length b' < length b" by blast
    note eq = res [unfolded ParseArray_loop.psimps [OF "3.hyps"(1)] pv, simplified]
    show "length r < length b"
    proof (cases "RemoveACharacter CHR ''e'' b'")
      case (Inl e)
      with eq have "ParseArray_loop (array @ [ele]) b' = Inr (v, r)" by simp
      with "3.hyps"(3) [OF pv refl Inl] have "length r < length b'" by blast
      with lt show ?thesis by simp
    next
      case (Inr b'')
      with eq have "r = b''" by simp
      with Inr lt show ?thesis by (simp add: RemoveACharacter_Inr)
    qed
  qed
next
  case (4 b)
  show ?case
  proof (intro allI impI)
    fix v r
    assume res: "ParseObject b = Inr (v, r)"
    then obtain b' where b': "RemoveACharacter CHR ''d'' b = Inr b'"
      by (cases "RemoveACharacter CHR ''d'' b")
        (simp_all add: ParseObject.psimps [OF "4.hyps"(1)])
    with res have "ParseObject_loop [] b' = Inr (v, r)"
      by (simp add: ParseObject.psimps [OF "4.hyps"(1)])
    with "4.hyps"(2) [OF b'] have "length r < length b'" by blast
    moreover from b' have "length b' < length b" by (simp add: RemoveACharacter_Inr)
    ultimately show "length r < length b" by simp
  qed
next
  case (5 object b)
  show ?case
  proof (intro allI impI)
    fix v r
    assume res: "ParseObject_loop object b = Inr (v, r)"
    then obtain key b1 where gs: "Context_GetString b = Inr (key, b1)"
      by (cases "Context_GetString b") (auto simp: ParseObject_loop.psimps [OF "5.hyps"(1)])
    then have lt1: "length b1 < length b" by (rule Context_GetString_shorter)
    from res gs obtain attribute b2 where pv: "ParseValue b1 = Inr (attribute, b2)"
      by (cases "ParseValue b1") (auto simp: ParseObject_loop.psimps [OF "5.hyps"(1)])
    with "5.hyps"(2) [OF gs refl] have lt2: "length b2 < length b1" by blast
    note eq = res [unfolded ParseObject_loop.psimps [OF "5.hyps"(1)] gs, simplified,
        unfolded pv, simplified]
    show "length r < length b"
    proof (cases "RemoveACharacter CHR ''e'' b2")
      case (Inl e)
      with eq have "ParseObject_loop (AList.update key attribute object) b2 = Inr (v, r)"
        by simp
      with "5.hyps"(3) [OF gs refl pv refl Inl] have "length r < length b2" by blast
      with lt1 lt2 show ?thesis by simp
    next
      case (Inr b3)
      with eq have "r = b3" by simp
      with Inr lt1 lt2 show ?thesis by (simp add: RemoveACharacter_Inr)
    qed
  qed
qed

lemma ParseValue_shorter_dom:
  "ParseValue_ParseArray_ParseArray_loop_ParseObject_ParseObject_loop_dom (Inl (Inl b)) \<Longrightarrow>
   ParseValue b = Inr (v, r) \<Longrightarrow> length r < length b"
  using Parse_shorter_dom(1) by blast

termination ParseValue
  apply (relation "measure Parse_measure")
  apply (auto simp: Parse_measure_def RemoveACharacter_Inr
      dest: Context_GetString_shorter ParseValue_shorter_dom)
  apply (drule Context_GetString_shorter, drule (1) ParseValue_shorter_dom, simp)
  done

declare ParseValue.simps [simp del] ParseArray.simps [simp del] ParseArray_loop.simps [simp del]
  ParseObject.simps [simp del] ParseObject_loop.simps [simp del]

text \<open>
  The domain predicate of the five parsing functions holds of an argument when every
  chain of recursive calls that starts from it is finite. It holds everywhere.
\<close>

lemma Parse_dom:
  "ParseValue_ParseArray_ParseArray_loop_ParseObject_ParseObject_loop_dom (Inl (Inl b1))"
  "ParseValue_ParseArray_ParseArray_loop_ParseObject_ParseObject_loop_dom (Inl (Inr b2))"
  "ParseValue_ParseArray_ParseArray_loop_ParseObject_ParseObject_loop_dom
     (Inr (Inl (array, b3)))"
  "ParseValue_ParseArray_ParseArray_loop_ParseObject_ParseObject_loop_dom
     (Inr (Inr (Inl b4)))"
  "ParseValue_ParseArray_ParseArray_loop_ParseObject_ParseObject_loop_dom
     (Inr (Inr (Inr (object, b5))))"
proof (induct b1 and b2 and array b3 and b4 and object b5
    rule: ParseValue_ParseArray_ParseArray_loop_ParseObject_ParseObject_loop.induct)
  case (1 b)
  show ?case
  proof (rule ParseValue_ParseArray_ParseArray_loop_ParseObject_ParseObject_loop.domintros(1))
    assume "PeekACharacter b = Inr CHR ''l''"
    then show "ParseValue_ParseArray_ParseArray_loop_ParseObject_ParseObject_loop_dom
        (Inl (Inr b))"
      by (rule "1.hyps"(1)) (simp_all add: less_eq_char_def)
  next
    assume "PeekACharacter b = Inr CHR ''d''"
    then show "ParseValue_ParseArray_ParseArray_loop_ParseObject_ParseObject_loop_dom
        (Inr (Inr (Inl b)))"
      by (rule "1.hyps"(2)) (simp_all add: less_eq_char_def)
  qed
next
  case (2 b)
  show ?case
    by (rule ParseValue_ParseArray_ParseArray_loop_ParseObject_ParseObject_loop.domintros(2))
      (rule "2.hyps")
next
  case (3 array b)
  show ?case
  proof (rule ParseValue_ParseArray_ParseArray_loop_ParseObject_ParseObject_loop.domintros(3))
    show "ParseValue_ParseArray_ParseArray_loop_ParseObject_ParseObject_loop_dom (Inl (Inl b))"
      by (rule "3.hyps"(1))
  next
    fix ele b' e
    assume "ParseValue b = Inr (ele, b')" and "RemoveACharacter CHR ''e'' b' = Inl e"
    then show "ParseValue_ParseArray_ParseArray_loop_ParseObject_ParseObject_loop_dom
        (Inr (Inl (array @ [ele], b')))"
      by (rule "3.hyps"(2) [OF _ refl])
  qed
next
  case (4 b)
  show ?case
    by (rule ParseValue_ParseArray_ParseArray_loop_ParseObject_ParseObject_loop.domintros(4))
      (rule "4.hyps")
next
  case (5 object b)
  show ?case
  proof (rule ParseValue_ParseArray_ParseArray_loop_ParseObject_ParseObject_loop.domintros(5))
    fix key b1
    assume "Context_GetString b = Inr (key, b1)"
    then show "ParseValue_ParseArray_ParseArray_loop_ParseObject_ParseObject_loop_dom
        (Inl (Inl b1))"
      by (rule "5.hyps"(1) [OF _ refl])
  next
    fix key b1 attribute b2 e
    assume "Context_GetString b = Inr (key, b1)" and "ParseValue b1 = Inr (attribute, b2)"
      and "RemoveACharacter CHR ''e'' b2 = Inl e"
    then show "ParseValue_ParseArray_ParseArray_loop_ParseObject_ParseObject_loop_dom
        (Inr (Inr (Inr (AList.update key attribute object, b2))))"
      by (rule "5.hyps"(2) [OF _ refl _ refl])
  qed
qed

lemma Parse_total:
  "ParseValue_ParseArray_ParseArray_loop_ParseObject_ParseObject_loop_dom x"
proof (cases x)
  case (Inl y)
  then show ?thesis by (cases y) (simp_all add: Parse_dom)
next
  case (Inr y)
  show ?thesis
  proof (cases y)
    case (Inl z)
    with Inr show ?thesis by (cases z) (simp add: Parse_dom)
  next
    case y: (Inr z)
    show ?thesis
    proof (cases z)
      case (Inl w)
      with Inr y show ?thesis by (simp add: Parse_dom)
    next
      case z: (Inr w)
      with Inr y show ?thesis by (cases w) (simp add: Parse_dom)
    qed
  qed
qed

lemma ParseValue_shorter: "ParseValue b = Inr (v, r) \<Longrightarrow> length r < length b"
  using ParseValue_shorter_dom [OF Parse_total] .

lemma ParseArray_shorter: "ParseArray b = Inr (v, r) \<Longrightarrow> length r < length b"
  using Parse_shorter_dom(2) [OF Parse_total] by blast

lemma ParseArray_loop_shorter:
  "ParseArray_loop array b = Inr (v, r) \<Longrightarrow> length r < length b"
  using Parse_shorter_dom(3) [OF Parse_total] by blast

lemma ParseObject_shorter: "ParseObject b = Inr (v, r) \<Longrightarrow> length r < length b"
  using Parse_shorter_dom(4) [OF Parse_total] by blast

lemma ParseObject_loop_shorter:
  "ParseObject_loop object b = Inr (v, r) \<Longrightarrow> length r < length b"
  using Parse_shorter_dom(5) [OF Parse_total] by blast

section \<open>Decimal numerals: printing and reading back\<close>

lemmas Kind_defs = String_def Number_def Array_def Object_def

lemma FormatUint_not_Nil: "FormatUint n \<noteq> []"
  by (subst FormatUint.simps) simp

lemma isDigit_char_of: "d < 10 \<Longrightarrow> isDigit (char_of (48 + d :: nat))"
  by (simp add: isDigit_def less_eq_char_def)

lemma FormatUint_digits: "list_all isDigit (FormatUint n)"
proof (induction n rule: FormatUint.induct)
  case (1 n)
  show ?case
  proof (cases "n < 10")
    case True
    then show ?thesis by (subst FormatUint.simps) (simp add: isDigit_char_of)
  next
    case False
    with 1 show ?thesis by (subst FormatUint.simps) (simp add: isDigit_char_of)
  qed
qed

lemma digitsValue_snoc: "digitsValue (ds @ [c]) = digitsValue ds * 10 + (of_char c - 48)"
  by (simp add: digitsValue_def)

lemma digitsValue_FormatUint: "digitsValue (FormatUint n) = n"
proof (induction n rule: FormatUint.induct)
  case (1 n)
  show ?case
  proof (cases "n < 10")
    case True
    then show ?thesis by (subst FormatUint.simps) (simp add: digitsValue_def)
  next
    case False
    with 1 have "digitsValue (FormatUint (n div 10)) = n div 10" by simp
    with False show ?thesis
      by (subst FormatUint.simps) (simp add: digitsValue_snoc)
  qed
qed

lemma digitRun_stop: "rest = [] \<or> \<not> isDigit (hd rest) \<Longrightarrow> digitRun rest = 0"
  by (cases rest) auto

lemma digitRun_append:
  "list_all isDigit ds \<Longrightarrow> rest = [] \<or> \<not> isDigit (hd rest) \<Longrightarrow>
   digitRun (ds @ rest) = length ds"
  by (induction ds) (simp_all add: digitRun_stop)

lemma sint_word_of_nat:
  assumes "n < 2 ^ 63"
  shows "sint (word_of_nat n :: 64 word) = int n"
proof -
  have "(word_of_nat n :: 64 word) = word_of_int (int n)" by simp
  moreover have "int n < 2 ^ 63" using assms by simp
  ultimately show ?thesis
    by (simp only: sint_sbintrunc' signed_take_bit_int_eq_self_iff) simp
qed

lemma word_of_nat_sint:
  assumes "0 \<le> sint (n :: 64 word)"
  shows "word_of_nat (nat (sint n)) = n"
proof -
  have "(word_of_nat (nat (sint n)) :: 64 word) = word_of_int (int (nat (sint n)))" by simp
  also have "\<dots> = word_of_int (sint n)" using assms by simp
  also have "\<dots> = n" by simp
  finally show ?thesis .
qed

lemma nat_sint_less: "nat (sint (n :: 64 word)) < 2 ^ 63"
  using sint_lt [of n] by (simp add: nat_less_iff)

lemma ParseInt_FormatUint:
  assumes "n < 2 ^ 63"
  shows "ParseInt (FormatUint n) = Some (word_of_nat n)"
proof -
  have "isDigit (hd (FormatUint n))"
    using FormatUint_digits [of n] FormatUint_not_Nil [of n]
    by (cases "FormatUint n") simp_all
  then have "hd (FormatUint n) \<noteq> CHR ''-''" "hd (FormatUint n) \<noteq> CHR ''+''"
    by (auto simp: isDigit_def less_eq_char_def)
  moreover have "ParseUint (FormatUint n) = Some n"
    using assms by (simp add: ParseUint_def FormatUint_not_Nil FormatUint_digits digitsValue_FormatUint)
  ultimately show ?thesis
    using assms by (simp add: ParseInt_def FormatUint_not_Nil Let_def)
qed

lemma Context_GetString_toBencodeString:
  assumes "length s < 2 ^ 63"
  shows "Context_GetString (toBencodeString s @ t) = Inr (s, t)"
proof -
  let ?ds = "FormatUint (length s)"
  have run: "digitRun (?ds @ CHR '':'' # s @ t) = length ?ds"
    by (rule digitRun_append) (simp_all add: FormatUint_digits isDigit_def less_eq_char_def)
  have sint: "sint (word_of_nat (length s) :: 64 word) = int (length s)"
    using assms by (rule sint_word_of_nat)
  show ?thesis
    using assms
    by (simp add: Context_GetString_def toBencodeString_def FormatInt_def run
        ParseInt_FormatUint RemoveACharacter_def sint)
qed

lemma ParseNumber_FormatInt:
  assumes "0 \<le> sint n"
  shows "ParseNumber (''i'' @ FormatInt (sint n) @ ''e'' @ t) = Inr (NewNumber n, t)"
proof -
  let ?ds = "FormatUint (nat (sint n))"
  have run: "digitRun (?ds @ CHR ''e'' # t) = length ?ds"
    by (rule digitRun_append) (simp_all add: FormatUint_digits isDigit_def less_eq_char_def)
  have pi: "ParseInt ?ds = Some n"
    using ParseInt_FormatUint [OF nat_sint_less, of n] word_of_nat_sint [OF assms] by simp
  show ?thesis
    using assms
    by (simp add: ParseNumber_def FormatInt_def RemoveACharacter_def run pi NewNumber_def)
qed


text \<open>
  \<^verbatim>\<open>ParseInt\<close> on a non-empty run of digits: the number that the run denotes, when it
  is below \<open>2 ^ 63\<close>, and an error otherwise. So the length that \<open>Context.GetString\<close>
  reads is never negative.
\<close>

lemma digitRun_take: "list_all isDigit (take (digitRun b) b)"
  by (induction b) simp_all

lemma isDigit_not_sign: "isDigit c \<Longrightarrow> c \<noteq> CHR ''-'' \<and> c \<noteq> CHR ''+''"
  by (auto simp: isDigit_def less_eq_char_def)

lemma ParseInt_digits:
  assumes "ds \<noteq> []" and "list_all isDigit ds"
  shows "ParseInt ds =
     (if digitsValue ds < 2 ^ 63 then Some (word_of_nat (digitsValue ds)) else None)"
proof -
  from assms have "isDigit (hd ds)" by (cases ds) simp_all
  then have sign: "hd ds \<noteq> CHR ''-''" "hd ds \<noteq> CHR ''+''"
    using isDigit_not_sign by blast+
  from assms have pu: "ParseUint ds =
      (if 2 ^ 64 \<le> digitsValue ds then None else Some (digitsValue ds))"
    by (simp add: ParseUint_def)
  show ?thesis
  proof (cases "digitsValue ds < 2 ^ 63")
    case True
    then have "\<not> (2::nat) ^ 64 \<le> digitsValue ds" by simp
    with True assms(1) sign pu show ?thesis by (simp add: ParseInt_def Let_def)
  next
    case False
    with assms(1) sign pu show ?thesis
      by (cases "(2::nat) ^ 64 \<le> digitsValue ds") (simp_all add: ParseInt_def Let_def)
  qed
qed

lemma ParseInt_digitRun_nonneg:
  assumes "ParseInt (take (digitRun b) b) = Some Len"
  shows "0 \<le> sint Len"
proof -
  let ?ds = "take (digitRun b) b"
  have "ParseInt [] = None" by (simp add: ParseInt_def)
  with assms have ne: "?ds \<noteq> []" by (cases "?ds = []") simp_all
  from ParseInt_digits [OF ne digitRun_take] assms
  have lt: "digitsValue ?ds < 2 ^ 63" and Len: "Len = word_of_nat (digitsValue ?ds)"
    by (simp_all split: if_splits)
  from sint_word_of_nat [OF lt] Len show ?thesis by simp
qed

section \<open>Scalars: the decoder reads back what the encoder writes\<close>

text \<open>The equations that evaluate the decoder on a concrete input.\<close>

lemmas decode_eval = Decode_def ParseValue.simps ParseArray.simps ParseArray_loop.simps
  ParseObject.simps ParseObject_loop.simps ParseString_def ParseNumber_def
  Context_GetString_def RemoveACharacter_def PeekACharacter_def ParseInt_def ParseUint_def
  digitsValue_def isDigit_def less_eq_char_def Let_def

lemma hd_FormatUint_digit: "isDigit (hd (FormatUint n))"
  using FormatUint_digits [of n] FormatUint_not_Nil [of n]
  by (cases "FormatUint n") simp_all

lemma ParseValue_toBencodeString:
  assumes "length s < 2 ^ 63"
  shows "ParseValue (toBencodeString s @ t) = Inr (NewString s, t)"
proof -
  obtain c cs where f: "FormatUint (length s) = c # cs"
    using FormatUint_not_Nil [of "length s"] by (cases "FormatUint (length s)") auto
  with hd_FormatUint_digit [of "length s"] have "CHR ''0'' \<le> c \<and> c \<le> CHR ''9''"
    by (simp add: isDigit_def)
  then have "ParseValue (toBencodeString s @ t) = ParseString (toBencodeString s @ t)"
    by (simp add: ParseValue.simps PeekACharacter_def toBencodeString_def FormatInt_def f)
  with assms show ?thesis
    by (simp add: ParseString_def Context_GetString_toBencodeString NewString_def)
qed

lemma ParseValue_FormatInt:
  assumes "0 \<le> sint n"
  shows "ParseValue (''i'' @ FormatInt (sint n) @ ''e'' @ t) = Inr (NewNumber n, t)"
proof -
  have "ParseValue (''i'' @ FormatInt (sint n) @ ''e'' @ t) =
        ParseNumber (''i'' @ FormatInt (sint n) @ ''e'' @ t)"
    by (simp add: ParseValue.simps PeekACharacter_def less_eq_char_def)
  with assms show ?thesis by (simp only: ParseNumber_FormatInt)
qed

text \<open>
  Claim C2. Decoding the encoding of a byte string gives the byte string back, and
  decoding the encoding of a non-negative integer gives the integer back. The length of a
  Go string is an \<^verbatim>\<open>int\<close>, so it is below \<open>2 ^ 63\<close>; a HOL list has no such bound, and
  the hypothesis on \<open>length s\<close> states it. The integers are all 64-bit words, read as
  signed by \<open>sint\<close>.
\<close>

theorem Decode_Encode_scalar:
  "(length s < 2 ^ 63 \<longrightarrow>
      (\<exists>e. Encode (NewString s) = Inr e \<and> Decode e = Inr (NewString s))) \<and>
   (0 \<le> sint n \<longrightarrow>
      (\<exists>e. Encode (NewNumber n) = Inr e \<and> Decode e = Inr (NewNumber n)))"
proof (intro conjI impI)
  assume "length s < 2 ^ 63"
  then have "Decode (toBencodeString s) = Inr (NewString s)"
    using ParseValue_toBencodeString [of s "[]"] by (simp add: Decode_def)
  then show "\<exists>e. Encode (NewString s) = Inr e \<and> Decode e = Inr (NewString s)"
    by (simp add: NewString_def)
next
  assume "0 \<le> sint n"
  then have "Decode (''i'' @ FormatInt (sint n) @ ''e'') = Inr (NewNumber n)"
    using ParseValue_FormatInt [of n "[]"] by (simp add: Decode_def)
  then show "\<exists>e. Encode (NewNumber n) = Inr e \<and> Decode e = Inr (NewNumber n)"
    by (simp add: NewNumber_def Kind_defs)
qed

theorem Decode_Encode_scalar_witness:
  "length ''spam'' < (2::nat) ^ 63 \<and>
   (\<exists>e. Encode (NewString ''spam'') = Inr e \<and> Decode e = Inr (NewString ''spam'')) \<and>
   0 \<le> sint (42 :: 64 word) \<and>
   (\<exists>e. Encode (NewNumber 42) = Inr e \<and> Decode e = Inr (NewNumber 42))"
  using Decode_Encode_scalar [of "''spam''" 42] by simp

section \<open>Empty containers\<close>

text \<open>
  Claim C1. The encoder writes the empty list as \<^verbatim>\<open>le\<close> and the empty dictionary as
  \<^verbatim>\<open>de\<close>, but the decoder accepts neither: each loop parses an element (a key) before
  it looks for the closing \<^verbatim>\<open>e\<close>, so \<^verbatim>\<open>le\<close> stops at the byte \<^verbatim>\<open>e\<close> (101) with the error
  of \<open>ParseValue\<close>'s default case, and \<^verbatim>\<open>de\<close> stops with a syntax error in the key.
\<close>

theorem Decode_empty_containers:
  "Decode ''le'' = Inl (ErrorCharacter CHR ''e'') \<and>
   Decode ''de'' = Inl SyntaxError \<and>
   Encode (Value Array [] 0 [] []) = Inr ''le'' \<and>
   Encode (Value Object [] 0 [] []) = Inr ''de''"
  by (simp add: decode_eval Kind_defs)

text \<open>
  Claim C3, at the empty sequence: the encoding of the empty list is not decoded back.
  For every sequence with at least one element the round trip holds
  (lemma \<open>Decode_Encode_scalar_list\<close> below).
\<close>

theorem Decode_Encode_empty_list:
  "\<exists>e. Encode (Value Array [] 0 [] []) = Inr e \<and> Decode e = Inl (ErrorCharacter CHR ''e'')"
  by (simp add: decode_eval Kind_defs)

section \<open>Negative integers\<close>

text \<open>
  Claim C5. An input that starts with \<^verbatim>\<open>i-\<close> is rejected with the syntax error, whatever
  follows the sign: after \<^verbatim>\<open>i\<close> the run of digits is empty, and \<^verbatim>\<open>ParseInt\<close> fails on the
  empty string. In particular \<^verbatim>\<open>i-3e\<close> is rejected.
\<close>

theorem Decode_negative_integer:
  "Decode (''i-'' @ digits @ ''e'') = Inl SyntaxError \<and> Decode ''i-3e'' = Inl SyntaxError"
  by (simp add: decode_eval)

section \<open>Trailing bytes\<close>

text \<open>
  A successful parse never reads past the bytes it consumes: the run of digits ends at a
  byte that is consumed (\<^verbatim>\<open>:\<close> or \<^verbatim>\<open>e\<close>), and a failed test for the closing \<^verbatim>\<open>e\<close> is
  followed by a parse that consumes the byte tested. So bytes appended to the input are
  appended to the cursor returned, and change nothing else.
\<close>

lemma digitRun_le: "digitRun b \<le> length b"
  by (induction b) simp_all

lemma digitRun_append_stable:
  "digitRun p < length p \<Longrightarrow> digitRun (p @ t) = digitRun p"
  by (induction p) (auto split: if_splits)

lemma drop_Cons_length: "drop n p = c # b' \<Longrightarrow> n < length p"
  by (cases "n < length p") simp_all

lemma Context_GetString_append:
  assumes "Context_GetString p = Inr (s, r)"
  shows "Context_GetString (p @ t) = Inr (s, r @ t)"
proof -
  let ?n = "digitRun p"
  from assms obtain Len where pi: "ParseInt (take ?n p) = Some Len"
    by (cases "ParseInt (take ?n p)") (simp_all add: Context_GetString_def)
  from assms pi obtain b' where rm: "drop ?n p = CHR '':'' # b'"
    by (cases "RemoveACharacter CHR '':'' (drop ?n p)")
      (simp_all add: Context_GetString_def RemoveACharacter_Inr)
  from assms pi rm have len: "sint Len \<le> int (length b')"
    and s: "s = take (nat (sint Len)) b'" and r: "r = drop (nat (sint Len)) b'"
    by (simp_all add: Context_GetString_def RemoveACharacter_def split: if_splits)
  from rm have lt: "?n < length p" by (rule drop_Cons_length)
  then have run: "digitRun (p @ t) = ?n" by (rule digitRun_append_stable)
  from lt have tk: "take ?n (p @ t) = take ?n p" by simp
  from lt rm have dr: "drop ?n (p @ t) = CHR '':'' # b' @ t" by simp
  from len have le: "nat (sint Len) \<le> length b'" by simp
  show ?thesis
    unfolding Context_GetString_def Let_def run tk dr pi
    using len le by (simp add: RemoveACharacter_def s r)
qed

lemma ParseString_append:
  "ParseString p = Inr (v, r) \<Longrightarrow> ParseString (p @ t) = Inr (v, r @ t)"
  by (auto simp: ParseString_def Context_GetString_append split: sum.splits)

lemma ParseNumber_append:
  assumes "ParseNumber p = Inr (v, r)"
  shows "ParseNumber (p @ t) = Inr (v, r @ t)"
proof -
  from assms obtain b1 where p: "p = CHR ''i'' # b1"
    by (cases "RemoveACharacter CHR ''i'' p") (simp_all add: ParseNumber_def RemoveACharacter_Inr)
  let ?n = "digitRun b1"
  from assms p obtain number where pi: "ParseInt (take ?n b1) = Some number"
    by (cases "ParseInt (take ?n b1)") (simp_all add: ParseNumber_def RemoveACharacter_def)
  from assms p pi have rm: "drop ?n b1 = CHR ''e'' # r" and v: "v = Value Number [] number [] []"
    by (cases "RemoveACharacter CHR ''e'' (drop ?n b1)";
        simp add: ParseNumber_def RemoveACharacter_def split: if_splits; 
        cases "drop ?n b1"; simp)+
  from rm have lt: "?n < length b1" by (rule drop_Cons_length)
  then have run: "digitRun (b1 @ t) = ?n" by (rule digitRun_append_stable)
  from lt have tk: "take ?n (b1 @ t) = take ?n b1" by simp
  from lt rm have dr: "drop ?n (b1 @ t) = CHR ''e'' # r @ t" by simp
  have "ParseNumber (p @ t) =
      (case ParseInt (take (digitRun (b1 @ t)) (b1 @ t)) of
         None \<Rightarrow> Inl SyntaxError
       | Some number \<Rightarrow>
          (case RemoveACharacter CHR ''e'' (drop (digitRun (b1 @ t)) (b1 @ t)) of
             Inl _ \<Rightarrow> Inl SyntaxError
           | Inr b2 \<Rightarrow> Inr (Value Number [] number [] [], b2)))"
    by (simp add: ParseNumber_def p RemoveACharacter_def Let_def)
  also have "\<dots> = Inr (v, r @ t)"
    unfolding run tk dr pi by (simp add: RemoveACharacter_def v)
  finally show ?thesis .
qed

lemma RemoveACharacter_cases:
  "RemoveACharacter c b = (if b \<noteq> [] \<and> hd b = c then Inr (tl b) else Inl SyntaxError)"
  by (cases b) (simp_all add: RemoveACharacter_def)

lemma ParseArray_loop_step:
  "ParseValue b = Inr (ele, b') \<Longrightarrow>
   ParseArray_loop array b =
     (if b' \<noteq> [] \<and> hd b' = CHR ''e'' then Inr (Value Array [] 0 (array @ [ele]) [], tl b')
      else ParseArray_loop (array @ [ele]) b')"
  by (subst ParseArray_loop.simps) (simp add: RemoveACharacter_cases)

lemma ParseArray_loop_Inl: "ParseValue b = Inl e \<Longrightarrow> ParseArray_loop array b = Inl e"
  by (subst ParseArray_loop.simps) simp

lemma ParseObject_loop_step:
  "Context_GetString b = Inr (key, b1) \<Longrightarrow> ParseValue b1 = Inr (attribute, b2) \<Longrightarrow>
   ParseObject_loop object b =
     (if b2 \<noteq> [] \<and> hd b2 = CHR ''e''
      then Inr (Value Object [] 0 [] (AList.update key attribute object), tl b2)
      else ParseObject_loop (AList.update key attribute object) b2)"
  by (subst ParseObject_loop.simps) (simp add: RemoveACharacter_cases)

lemma ParseObject_loop_Inl1:
  "Context_GetString b = Inl e \<Longrightarrow> ParseObject_loop object b = Inl e"
  by (subst ParseObject_loop.simps) simp

lemma ParseObject_loop_Inl2:
  "Context_GetString b = Inr (key, b1) \<Longrightarrow> ParseValue b1 = Inl e \<Longrightarrow>
   ParseObject_loop object b = Inl e"
  by (subst ParseObject_loop.simps) simp

lemma ParseValue_Nil: "ParseValue [] = Inl SyntaxError"
  by (simp add: ParseValue.simps PeekACharacter_def)

lemma ParseValue_hd:
  "b \<noteq> [] \<Longrightarrow>
   ParseValue b =
     (if hd b \<ge> CHR ''0'' \<and> hd b \<le> CHR ''9'' then ParseString b
      else if hd b = CHR ''i'' then ParseNumber b
      else if hd b = CHR ''l'' then ParseArray b
      else if hd b = CHR ''d'' then ParseObject b
      else Inl (ErrorCharacter (hd b)))"
  by (subst ParseValue.simps) (simp add: PeekACharacter_def)

lemma ParseArray_hd:
  "ParseArray b =
     (if b \<noteq> [] \<and> hd b = CHR ''l'' then ParseArray_loop [] (tl b) else Inl SyntaxError)"
  by (subst ParseArray.simps) (simp add: RemoveACharacter_cases)

lemma ParseObject_hd:
  "ParseObject b =
     (if b \<noteq> [] \<and> hd b = CHR ''d'' then ParseObject_loop [] (tl b) else Inl SyntaxError)"
  by (subst ParseObject.simps) (simp add: RemoveACharacter_cases)

lemma Parse_append:
  "\<forall>v r. ParseValue b1 = Inr (v, r) \<longrightarrow> ParseValue (b1 @ t) = Inr (v, r @ t)"
  "\<forall>v r. ParseArray b2 = Inr (v, r) \<longrightarrow> ParseArray (b2 @ t) = Inr (v, r @ t)"
  "\<forall>v r. ParseArray_loop array b3 = Inr (v, r) \<longrightarrow>
         ParseArray_loop array (b3 @ t) = Inr (v, r @ t)"
  "\<forall>v r. ParseObject b4 = Inr (v, r) \<longrightarrow> ParseObject (b4 @ t) = Inr (v, r @ t)"
  "\<forall>v r. ParseObject_loop object b5 = Inr (v, r) \<longrightarrow>
         ParseObject_loop object (b5 @ t) = Inr (v, r @ t)"
proof (induct b1 and b2 and array b3 and b4 and object b5
    rule: ParseValue_ParseArray_ParseArray_loop_ParseObject_ParseObject_loop.induct)
  case (1 b)
  show ?case
  proof (intro allI impI)
    fix v r
    assume res: "ParseValue b = Inr (v, r)"
    then have ne: "b \<noteq> []" by (auto simp: ParseValue_Nil)
    then have pk: "PeekACharacter b = Inr (hd b)" by (simp add: PeekACharacter_def)
    from ne have ne': "b @ t \<noteq> []" and hd: "hd (b @ t) = hd b" by simp_all
    note eq = res [unfolded ParseValue_hd [OF ne]]
    show "ParseValue (b @ t) = Inr (v, r @ t)"
    proof (cases "CHR ''0'' \<le> hd b \<and> hd b \<le> CHR ''9''")
      case True
      with eq have "ParseString b = Inr (v, r)" by simp
      then have "ParseString (b @ t) = Inr (v, r @ t)" by (rule ParseString_append)
      with True show ?thesis by (simp add: ParseValue_hd [OF ne'] hd)
    next
      case nd: False
      show ?thesis
      proof (cases "hd b = CHR ''i''")
        case True
        with eq nd have "ParseNumber b = Inr (v, r)" by simp
        then have "ParseNumber (b @ t) = Inr (v, r @ t)" by (rule ParseNumber_append)
        with nd True show ?thesis by (simp add: ParseValue_hd [OF ne'] hd)
      next
        case ni: False
        show ?thesis
        proof (cases "hd b = CHR ''l''")
          case True
          with eq nd ni have "ParseArray b = Inr (v, r)" by simp
          with "1.hyps"(1) [OF pk nd ni True] have "ParseArray (b @ t) = Inr (v, r @ t)"
            by blast
          with nd ni True show ?thesis by (simp add: ParseValue_hd [OF ne'] hd)
        next
          case nl: False
          show ?thesis
          proof (cases "hd b = CHR ''d''")
            case True
            with eq nd ni nl have "ParseObject b = Inr (v, r)" by simp
            with "1.hyps"(2) [OF pk nd ni nl True] have "ParseObject (b @ t) = Inr (v, r @ t)"
              by blast
            with nd ni nl True show ?thesis by (simp add: ParseValue_hd [OF ne'] hd)
          next
            case False
            with eq nd ni nl show ?thesis by simp
          qed
        qed
      qed
    qed
  qed
next
  case (2 b)
  show ?case
  proof (intro allI impI)
    fix v r
    assume res: "ParseArray b = Inr (v, r)"
    then have b: "b \<noteq> [] \<and> hd b = CHR ''l''"
      by (cases "b \<noteq> [] \<and> hd b = CHR ''l''") (simp_all add: ParseArray_hd)
    with res have "ParseArray_loop [] (tl b) = Inr (v, r)" by (simp add: ParseArray_hd)
    moreover from b have "RemoveACharacter CHR ''l'' b = Inr (tl b)"
      by (simp add: RemoveACharacter_cases)
    ultimately have "ParseArray_loop [] (tl b @ t) = Inr (v, r @ t)"
      using "2.hyps" by blast
    with b show "ParseArray (b @ t) = Inr (v, r @ t)" by (simp add: ParseArray_hd)
  qed
next
  case (3 array b)
  show ?case
  proof (intro allI impI)
    fix v r
    assume res: "ParseArray_loop array b = Inr (v, r)"
    then obtain ele b' where pv: "ParseValue b = Inr (ele, b')"
      by (cases "ParseValue b") (auto simp: ParseArray_loop_Inl)
    with "3.hyps"(1) have pv': "ParseValue (b @ t) = Inr (ele, b' @ t)" by blast
    show "ParseArray_loop array (b @ t) = Inr (v, r @ t)"
    proof (cases "b' \<noteq> [] \<and> hd b' = CHR ''e''")
      case True
      with res pv have "v = Value Array [] 0 (array @ [ele]) []" "r = tl b'"
        by (simp_all add: ParseArray_loop_step)
      with True show ?thesis by (simp add: ParseArray_loop_step [OF pv'])
    next
      case False
      with res pv have loop: "ParseArray_loop (array @ [ele]) b' = Inr (v, r)"
        by (simp add: ParseArray_loop_step)
      from False have "RemoveACharacter CHR ''e'' b' = Inl SyntaxError"
        by (simp add: RemoveACharacter_cases)
      from "3.hyps"(2) [OF pv refl this] loop
      have loop': "ParseArray_loop (array @ [ele]) (b' @ t) = Inr (v, r @ t)" by blast
      from loop pv obtain ele2 b2 where "ParseValue b' = Inr (ele2, b2)"
        by (cases "ParseValue b'") (auto simp: ParseArray_loop_Inl)
      then have "b' \<noteq> []" by (auto simp: ParseValue_Nil)
      with False have "hd (b' @ t) \<noteq> CHR ''e''" by simp
      then have "ParseArray_loop array (b @ t) = ParseArray_loop (array @ [ele]) (b' @ t)"
        by (simp add: ParseArray_loop_step [OF pv'])
      with loop' show ?thesis by simp
    qed
  qed
next
  case (4 b)
  show ?case
  proof (intro allI impI)
    fix v r
    assume res: "ParseObject b = Inr (v, r)"
    then have b: "b \<noteq> [] \<and> hd b = CHR ''d''"
      by (cases "b \<noteq> [] \<and> hd b = CHR ''d''") (simp_all add: ParseObject_hd)
    with res have "ParseObject_loop [] (tl b) = Inr (v, r)" by (simp add: ParseObject_hd)
    moreover from b have "RemoveACharacter CHR ''d'' b = Inr (tl b)"
      by (simp add: RemoveACharacter_cases)
    ultimately have "ParseObject_loop [] (tl b @ t) = Inr (v, r @ t)"
      using "4.hyps" by blast
    with b show "ParseObject (b @ t) = Inr (v, r @ t)" by (simp add: ParseObject_hd)
  qed
next
  case (5 object b)
  show ?case
  proof (intro allI impI)
    fix v r
    assume res: "ParseObject_loop object b = Inr (v, r)"
    then obtain key b1 where gs: "Context_GetString b = Inr (key, b1)"
      by (cases "Context_GetString b") (auto simp: ParseObject_loop_Inl1)
    then have gs': "Context_GetString (b @ t) = Inr (key, b1 @ t)"
      by (rule Context_GetString_append)
    from res gs obtain attribute b2 where pv: "ParseValue b1 = Inr (attribute, b2)"
      by (cases "ParseValue b1") (auto simp: ParseObject_loop_Inl2)
    with "5.hyps"(1) [OF gs refl] have pv': "ParseValue (b1 @ t) = Inr (attribute, b2 @ t)"
      by blast
    let ?object = "AList.update key attribute object"
    show "ParseObject_loop object (b @ t) = Inr (v, r @ t)"
    proof (cases "b2 \<noteq> [] \<and> hd b2 = CHR ''e''")
      case True
      with res gs pv have "v = Value Object [] 0 [] ?object" "r = tl b2"
        by (simp_all add: ParseObject_loop_step)
      with True show ?thesis by (simp add: ParseObject_loop_step [OF gs' pv'])
    next
      case False
      with res gs pv have loop: "ParseObject_loop ?object b2 = Inr (v, r)"
        by (simp add: ParseObject_loop_step)
      from False have "RemoveACharacter CHR ''e'' b2 = Inl SyntaxError"
        by (simp add: RemoveACharacter_cases)
      from "5.hyps"(2) [OF gs refl pv refl this] loop
      have loop': "ParseObject_loop ?object (b2 @ t) = Inr (v, r @ t)" by blast
      from loop obtain key2 b3 where "Context_GetString b2 = Inr (key2, b3)"
        by (cases "Context_GetString b2") (auto simp: ParseObject_loop_Inl1)
      then have "b2 \<noteq> []" by (auto dest: Context_GetString_shorter)
      with False have "hd (b2 @ t) \<noteq> CHR ''e''" by simp
      then have "ParseObject_loop object (b @ t) = ParseObject_loop ?object (b2 @ t)"
        by (simp add: ParseObject_loop_step [OF gs' pv'])
      with loop' show ?thesis by simp
    qed
  qed
qed

lemma ParseValue_append:
  "ParseValue p = Inr (v, r) \<Longrightarrow> ParseValue (p @ t) = Inr (v, r @ t)"
  using Parse_append(1) by blast

section \<open>The loops on a sequence of elements that the decoder reads\<close>

lemma reads_append: "reads p v \<Longrightarrow> ParseValue (p @ t) = Inr (v, t)"
  using ParseValue_append [of p v "[]" t] by (simp add: reads_def)

lemma ParseValue_e: "ParseValue (CHR ''e'' # t) = Inl (ErrorCharacter CHR ''e'')"
  by (simp add: ParseValue_hd less_eq_char_def)

lemma reads_hd: "reads p v \<Longrightarrow> p \<noteq> [] \<and> hd p \<noteq> CHR ''e''"
  by (cases p) (auto simp: reads_def ParseValue_Nil ParseValue_e)

lemma ParseArray_loop_concat:
  assumes "list_all2 reads ps vs" and "ps \<noteq> []"
  shows "ParseArray_loop array (concat ps @ rest) =
     (if rest \<noteq> [] \<and> hd rest = CHR ''e''
      then Inr (Value Array [] 0 (array @ vs) [], tl rest)
      else ParseArray_loop (array @ vs) rest)"
  using assms
proof (induction ps vs arbitrary: array rule: list_all2_induct)
  case Nil
  then show ?case by simp
next
  case (Cons p ps v vs)
  from Cons.hyps(1) have pv: "ParseValue (p @ concat ps @ rest) = Inr (v, concat ps @ rest)"
    by (rule reads_append)
  show ?case
  proof (cases "ps = []")
    case True
    with Cons.hyps(2) have "vs = []" by simp
    with True pv show ?thesis by (simp add: ParseArray_loop_step)
  next
    case False
    with Cons.hyps(2) obtain p' ps' v' where ps: "ps = p' # ps'" and "reads p' v'"
      by (cases ps; cases vs) auto
    then have "p' \<noteq> [] \<and> hd p' \<noteq> CHR ''e''" using reads_hd by blast
    with ps have "hd (concat ps @ rest) \<noteq> CHR ''e''" by simp
    with pv have "ParseArray_loop array (concat (p # ps) @ rest) =
        ParseArray_loop (array @ [v]) (concat ps @ rest)"
      by (simp add: ParseArray_loop_step)
    with Cons.IH [OF False, of "array @ [v]"] show ?thesis by simp
  qed
qed

lemma Context_GetString_Nil: "Context_GetString [] = Inl SyntaxError"
  by (simp add: Context_GetString_def ParseInt_def)

lemma Context_GetString_e: "Context_GetString (CHR ''e'' # t) = Inl SyntaxError"
  by (simp add: Context_GetString_def ParseInt_def isDigit_def less_eq_char_def)

lemma reads_entry_hd: "reads_entry e kv \<Longrightarrow> fst e \<noteq> [] \<and> hd (fst e) \<noteq> CHR ''e''"
  by (cases "fst e") (auto simp: reads_entry_def Context_GetString_Nil Context_GetString_e)

lemma reads_entry_append:
  assumes "reads_entry e kv"
  shows "Context_GetString (fst e @ snd e @ t) = Inr (fst kv, snd e @ t)"
    and "ParseValue (snd e @ t) = Inr (snd kv, t)"
  using assms Context_GetString_append [of "fst e" "fst kv" "[]" "snd e @ t"]
    ParseValue_append [of "snd e" "snd kv" "[]" t]
  by (simp_all add: reads_entry_def)

lemma ParseObject_loop_entries:
  assumes "list_all2 reads_entry es kvs" and "es \<noteq> []"
  shows "ParseObject_loop object (entries es @ rest) =
     (if rest \<noteq> [] \<and> hd rest = CHR ''e''
      then Inr (Value Object [] 0 [] (store kvs object), tl rest)
      else ParseObject_loop (store kvs object) rest)"
  using assms
proof (induction es kvs arbitrary: object rule: list_all2_induct)
  case Nil
  then show ?case by simp
next
  case (Cons e es kv kvs)
  note gs = reads_entry_append(1) [OF Cons.hyps(1), of "entries es @ rest"]
  note pv = reads_entry_append(2) [OF Cons.hyps(1), of "entries es @ rest"]
  have split: "entries (e # es) @ rest = fst e @ snd e @ entries es @ rest"
    by (simp add: entries_def)
  have st: "store (kv # kvs) object = store kvs (AList.update (fst kv) (snd kv) object)"
    by (simp add: store_def)
  show ?case
  proof (cases "es = []")
    case True
    with Cons.hyps(2) have "kvs = []" by simp
    have "entries (e # es) @ rest = fst e @ snd e @ rest"
      using True by (simp add: entries_def)
    with \<open>kvs = []\<close> show ?thesis
      by (simp add: store_def
          ParseObject_loop_step [OF reads_entry_append(1) [OF Cons.hyps(1)] reads_entry_append(2) [OF Cons.hyps(1)]])
  next
    case False
    with Cons.hyps(2) obtain e' es' kv' where es: "es = e' # es'" and "reads_entry e' kv'"
      by (cases es; cases kvs) auto
    then have "fst e' \<noteq> [] \<and> hd (fst e') \<noteq> CHR ''e''" using reads_entry_hd by blast
    with es have "hd (entries es @ rest) \<noteq> CHR ''e''" by (simp add: entries_def)
    then have "ParseObject_loop object (entries (e # es) @ rest) =
        ParseObject_loop (AList.update (fst kv) (snd kv) object) (entries es @ rest)"
      unfolding split by (simp add: ParseObject_loop_step [OF gs pv])
    with Cons.IH [OF False, of "AList.update (fst kv) (snd kv) object"] show ?thesis
      by (simp add: st)
  qed
qed

lemma map_of_store: "map_of (store kvs object) = map_of object ++ map_of (rev kvs)"
proof (induction kvs arbitrary: object)
  case Nil
  then show ?case by (simp add: store_def)
next
  case (Cons kv kvs)
  have "store (kv # kvs) object = store kvs (AList.update (fst kv) (snd kv) object)"
    by (simp add: store_def)
  then show ?case
    by (simp add: Cons.IH update_conv' map_add_def fun_eq_iff split: option.splits)
qed

lemma distinct_store: "distinct (map fst object) \<Longrightarrow> distinct (map fst (store kvs object))"
  by (induction kvs arbitrary: object) (simp_all add: store_def distinct_update)

lemma ParseValue_l: "ParseValue (CHR ''l'' # cs) = ParseArray_loop [] cs"
  by (simp add: ParseValue_hd ParseArray_hd less_eq_char_def)

lemma ParseValue_d: "ParseValue (CHR ''d'' # cs) = ParseObject_loop [] cs"
  by (simp add: ParseValue_hd ParseObject_hd less_eq_char_def)

lemma ParseArray_loop_Nil: "ParseArray_loop array [] = Inl SyntaxError"
  by (simp add: ParseArray_loop_Inl ParseValue_Nil)

lemma ParseObject_loop_Nil: "ParseObject_loop object [] = Inl SyntaxError"
  by (simp add: ParseObject_loop_Inl1 Context_GetString_Nil)

lemma ParseArray_loop_elements_then:
  assumes "list_all2 reads ps vs" and "rest = [] \<or> hd rest \<noteq> CHR ''e''"
  shows "\<exists>array'. ParseArray_loop array (concat ps @ rest) = ParseArray_loop array' rest"
proof (cases "ps = []")
  case True
  then show ?thesis by auto
next
  case False
  with assms show ?thesis by (auto simp: ParseArray_loop_concat)
qed

lemma ParseObject_loop_entries_then:
  assumes "list_all2 reads_entry es kvs" and "rest = [] \<or> hd rest \<noteq> CHR ''e''"
  shows "\<exists>object'. ParseObject_loop object (entries es @ rest) = ParseObject_loop object' rest"
proof (cases "es = []")
  case True
  then show ?thesis by (auto simp: entries_def)
next
  case False
  with assms show ?thesis by (auto simp: ParseObject_loop_entries)
qed

section \<open>Values of the grammar\<close>

text \<open>
  On an input that starts with a value of the grammar, the decoder does the same whatever
  follows the value: it returns one value and stops right after the value of the
  grammar, or it fails with one error. The proof goes along the grammar; in a list and
  in a dictionary the loop meets elements that are decided, then the closing \<^verbatim>\<open>e\<close>.
\<close>

lemma uniform_cong: "(\<And>t. f t = g t) \<Longrightarrow> uniform g \<Longrightarrow> uniform f"
  by (simp add: uniform_def)

lemma uniform_Inl: "(\<And>t. f t = Inl SyntaxError) \<Longrightarrow> uniform f"
  by (simp add: uniform_def)

lemma uniform_Inr: "(\<And>t. f t = Inr (v, t)) \<Longrightarrow> uniform f"
  by (auto simp: uniform_def)

lemma uniform_cases:
  assumes "uniform f"
  obtains (accept) v where "\<And>t. f t = Inr (v, t)"
    | (reject) e where "\<And>t. f t = Inl e" and "e = SyntaxError \<or> e = ErrorCharacter CHR ''e''"
  using assms unfolding uniform_def by blast

lemma uniform_reject:
  "(\<And>t. f t = Inl e) \<Longrightarrow> e = SyntaxError \<or> e = ErrorCharacter CHR ''e'' \<Longrightarrow> uniform f"
  by (auto simp: uniform_def)

lemma digitRun_pos: "0 < digitRun k \<Longrightarrow> k \<noteq> [] \<and> isDigit (hd k)"
  by (cases k) (auto split: if_splits)

lemma isDigit_not_e: "isDigit c \<Longrightarrow> c \<noteq> CHR ''e''"
  by (auto simp: isDigit_def less_eq_char_def)

lemma bytestring_decided_key:
  assumes "bytestring k"
  shows "decided_key k"
proof -
  let ?p = "digitRun k"
  from assms have pos: "0 < ?p" and lt: "?p < length k" and colon: "k ! ?p = CHR '':''"
    and val0: "digitsValue (take ?p k) = length (drop (Suc ?p) k)"
    by (simp_all add: bytestring_def Let_def)
  define raw where "raw = drop (Suc ?p) k"
  from lt colon have dr: "drop ?p k = CHR '':'' # raw"
    by (simp add: raw_def flip: Cons_nth_drop_Suc)
  from val0 have val: "digitsValue (take ?p k) = length raw" by (simp add: raw_def)
  from pos lt have ne: "take ?p k \<noteq> []" by auto
  note pi = ParseInt_digits [OF ne digitRun_take, unfolded val]
  have run: "digitRun (k @ t) = ?p" for t using lt by (rule digitRun_append_stable)
  have tk: "take ?p (k @ t) = take ?p k" for t using lt by simp
  have dr': "drop ?p (k @ t) = CHR '':'' # raw @ t" for t using lt dr by simp
  have "(\<exists>s. \<forall>t. Context_GetString (k @ t) = Inr (s, t)) \<or>
      (\<forall>t. Context_GetString (k @ t) = Inl SyntaxError)"
  proof (cases "length raw < 2 ^ 63")
    case True
    note sint = sint_word_of_nat [OF True]
    have "Context_GetString (k @ t) = Inr (raw, t)" for t
      unfolding Context_GetString_def Let_def run tk dr'
      using pi True by (simp add: RemoveACharacter_def sint)
    then show ?thesis by blast
  next
    case False
    have "Context_GetString (k @ t) = Inl SyntaxError" for t
      unfolding Context_GetString_def Let_def run tk dr'
      using pi False by simp
    then show ?thesis by blast
  qed
  with digitRun_pos [OF pos] show ?thesis by (simp add: decided_key_def)
qed

lemma bytestring_decided:
  assumes "bytestring k"
  shows "decided k"
proof -
  from bytestring_decided_key [OF assms]
  have key: "(\<exists>s. \<forall>t. Context_GetString (k @ t) = Inr (s, t)) \<or>
      (\<forall>t. Context_GetString (k @ t) = Inl SyntaxError)"
    and ne: "k \<noteq> []" and dg: "isDigit (hd k)"
    by (simp_all add: decided_key_def)
  from dg have "CHR ''0'' \<le> hd k \<and> hd k \<le> CHR ''9''" by (simp add: isDigit_def)
  with ne have pv: "ParseValue (k @ t) = ParseString (k @ t)" for t
    by (simp add: ParseValue_hd)
  from key have "uniform (\<lambda>t. ParseValue (k @ t))"
  proof
    assume "\<exists>s. \<forall>t. Context_GetString (k @ t) = Inr (s, t)"
    then obtain s where "\<And>t. Context_GetString (k @ t) = Inr (s, t)" by blast
    then have "ParseValue (k @ t) = Inr (Value String s 0 [] [], t)" for t
      by (simp add: pv ParseString_def)
    then show ?thesis by (rule uniform_Inr)
  next
    assume "\<forall>t. Context_GetString (k @ t) = Inl SyntaxError"
    then have "ParseValue (k @ t) = Inl SyntaxError" for t
      by (simp add: pv ParseString_def)
    then show ?thesis by (rule uniform_Inl)
  qed
  with ne dg show ?thesis by (simp add: decided_def isDigit_not_e)
qed

lemma integer_decided:
  assumes "ds \<noteq> []" and "list_all isDigit ds"
  shows "decided (CHR ''i'' # ds @ ''e'')"
proof -
  have run: "digitRun (ds @ CHR ''e'' # t) = length ds" for t
    using assms(2) by (intro digitRun_append) (simp_all add: isDigit_def less_eq_char_def)
  have pv: "ParseValue ((CHR ''i'' # ds @ ''e'') @ t) =
      (case ParseInt ds of
         None \<Rightarrow> Inl SyntaxError
       | Some number \<Rightarrow> Inr (Value Number [] number [] [], t))" for t
    by (simp add: ParseValue_hd less_eq_char_def ParseNumber_def RemoveACharacter_def run
        split: option.splits)
  have "uniform (\<lambda>t. ParseValue ((CHR ''i'' # ds @ ''e'') @ t))"
  proof (cases "ParseInt ds")
    case None
    then have "ParseValue ((CHR ''i'' # ds @ ''e'') @ t) = Inl SyntaxError" for t
      by (simp only: pv option.case)
    then show ?thesis by (rule uniform_Inl)
  next
    case (Some number)
    then have "ParseValue ((CHR ''i'' # ds @ ''e'') @ t) =
        Inr (Value Number [] number [] [], t)" for t
      by (simp only: pv option.case)
    then show ?thesis by (rule uniform_Inr)
  qed
  then show ?thesis by (simp add: decided_def)
qed


lemma decided_cases:
  assumes "decided p"
  obtains (accept) v where "\<And>t. ParseValue (p @ t) = Inr (v, t)"
    | (reject) e where "\<And>t. ParseValue (p @ t) = Inl e"
        and "e = SyntaxError \<or> e = ErrorCharacter CHR ''e''"
proof -
  from assms have "uniform (\<lambda>t. ParseValue (p @ t))" by (simp add: decided_def)
  then show thesis by (cases rule: uniform_cases) (blast intro: accept reject)+
qed

lemma decided_key_cases:
  assumes "decided_key k"
  obtains (accept) s where "\<And>t. Context_GetString (k @ t) = Inr (s, t)"
    | (reject) "\<And>t. Context_GetString (k @ t) = Inl SyntaxError"
  using assms unfolding decided_key_def by blast

lemma concat_decided_hd:
  assumes "\<forall>p \<in> set ps. decided p" and "ps \<noteq> []"
  shows "concat ps @ rest \<noteq> [] \<and> hd (concat ps @ rest) \<noteq> CHR ''e''"
proof -
  from assms obtain p ps' where "ps = p # ps'" and "decided p" by (cases ps) auto
  then show ?thesis by (simp add: decided_def)
qed

lemma ParseArray_loop_closed:
  assumes "\<forall>p \<in> set ps. decided p"
  shows "uniform (\<lambda>t. ParseArray_loop array (concat ps @ CHR ''e'' # t))"
  using assms
proof (induction ps arbitrary: array)
  case Nil
  have "ParseArray_loop array (concat [] @ CHR ''e'' # t) = Inl (ErrorCharacter CHR ''e'')"
    for t
    by (simp add: ParseArray_loop_Inl ParseValue_e)
  then show ?case by (rule uniform_reject) simp
next
  case (Cons p ps)
  then have p: "decided p" and ps: "\<forall>p \<in> set ps. decided p" by simp_all
  from p show ?case
  proof (cases rule: decided_cases)
    case (reject e)
    then have "ParseArray_loop array (concat (p # ps) @ CHR ''e'' # t) = Inl e" for t
      by (simp add: ParseArray_loop_Inl)
    then show ?thesis using reject(2) by (rule uniform_reject)
  next
    case (accept v)
    then have pv: "ParseValue (p @ concat ps @ CHR ''e'' # t) = Inr (v, concat ps @ CHR ''e'' # t)"
      for t by simp
    show ?thesis
    proof (cases "ps = []")
      case True
      have "ParseArray_loop array (concat (p # ps) @ CHR ''e'' # t) =
          Inr (Value Array [] 0 (array @ [v]) [], t)" for t
        using pv [of t] True by (simp add: ParseArray_loop_step)
      then show ?thesis by (rule uniform_Inr)
    next
      case False
      have "ParseArray_loop array (concat (p # ps) @ CHR ''e'' # t) =
          ParseArray_loop (array @ [v]) (concat ps @ CHR ''e'' # t)" for t
        using pv [of t] concat_decided_hd [OF ps False, of "CHR ''e'' # t"]
        by (simp add: ParseArray_loop_step)
      then show ?thesis using Cons.IH [OF ps] by (rule uniform_cong)
    qed
  qed
qed

lemma entries_decided_hd:
  assumes "\<forall>e \<in> set es. decided_key (fst e) \<and> decided (snd e)" and "es \<noteq> []"
  shows "entries es @ rest \<noteq> [] \<and> hd (entries es @ rest) \<noteq> CHR ''e''"
proof -
  from assms obtain e es' where "es = e # es'" and "decided_key (fst e)" by (cases es) auto
  then show ?thesis by (simp add: decided_key_def entries_def isDigit_not_e)
qed

lemma ParseObject_loop_closed:
  assumes "\<forall>e \<in> set es. decided_key (fst e) \<and> decided (snd e)"
  shows "uniform (\<lambda>t. ParseObject_loop object (entries es @ CHR ''e'' # t))"
  using assms
proof (induction es arbitrary: object)
  case Nil
  have "ParseObject_loop object (entries [] @ CHR ''e'' # t) = Inl SyntaxError" for t
    by (simp add: entries_def ParseObject_loop_Inl1 Context_GetString_e)
  then show ?case by (rule uniform_Inl)
next
  case (Cons e es)
  then have k: "decided_key (fst e)" and p: "decided (snd e)"
    and es: "\<forall>e \<in> set es. decided_key (fst e) \<and> decided (snd e)"
    by simp_all
  have split: "entries (e # es) @ rest = fst e @ snd e @ entries es @ rest" for rest
    by (simp add: entries_def)
  from k show ?case
  proof (cases rule: decided_key_cases)
    case reject
    then have "ParseObject_loop object (entries (e # es) @ CHR ''e'' # t) = Inl SyntaxError"
      for t unfolding split by (simp add: ParseObject_loop_Inl1)
    then show ?thesis by (rule uniform_Inl)
  next
    case (accept key)
    note key_ok = accept
    note gs = accept [of "snd e @ entries es @ CHR ''e'' # t" for t]
    from p show ?thesis
    proof (cases rule: decided_cases)
      case (reject err)
      have "ParseObject_loop object (entries (e # es) @ CHR ''e'' # t) = Inl err" for t
        unfolding split by (rule ParseObject_loop_Inl2 [OF gs reject(1)])
      then show ?thesis using reject(2) by (rule uniform_reject)
    next
      case (accept v)
      note pv = accept [of "entries es @ CHR ''e'' # t" for t]
      show ?thesis
      proof (cases "es = []")
        case True
        have "ParseObject_loop object (fst e @ snd e @ CHR ''e'' # t) =
            Inr (Value Object [] 0 [] (AList.update key v object), t)" for t
          by (simp add: ParseObject_loop_step [OF key_ok accept])
        with True
        have "ParseObject_loop object (entries (e # es) @ CHR ''e'' # t) =
            Inr (Value Object [] 0 [] (AList.update key v object), t)" for t
          by (simp add: entries_def)
        then show ?thesis by (rule uniform_Inr)
      next
        case False
        have "ParseObject_loop object (entries (e # es) @ CHR ''e'' # t) =
            ParseObject_loop (AList.update key v object) (entries es @ CHR ''e'' # t)" for t
          unfolding split
          using entries_decided_hd [OF es False, of "CHR ''e'' # t"]
          by (simp add: ParseObject_loop_step [OF gs pv])
        then show ?thesis using Cons.IH [OF es] by (rule uniform_cong)
      qed
    qed
  qed
qed

lemma bencode_decided: "bencode p \<Longrightarrow> decided p"
proof (induction rule: bencode.induct)
  case (bytestring p)
  then show ?case by (rule bytestring_decided)
next
  case (integer ds)
  then show ?case by (rule integer_decided)
next
  case (list ps)
  then have "\<forall>p \<in> set ps. decided p" by simp
  from ParseArray_loop_closed [OF this, of "[]"]
  have "uniform (\<lambda>t. ParseValue ((CHR ''l'' # concat ps @ ''e'') @ t))"
    by (simp add: ParseValue_l)
  then show ?case by (simp add: decided_def)
next
  case (dictionary es)
  then have "\<forall>e \<in> set es. decided_key (fst e) \<and> decided (snd e)"
    by (simp add: bytestring_decided_key)
  from ParseObject_loop_closed [OF this, of "[]"]
  have "uniform (\<lambda>t. ParseValue ((CHR ''d'' # entries es @ ''e'') @ t))"
    by (simp add: ParseValue_d)
  then show ?case by (simp add: decided_def)
qed

text \<open>Some values of the grammar.\<close>

lemma bytestring_example: "bytestring ''4:spam''" "bytestring ''1:a''" "bytestring ''3:cow''"
  by (simp_all add: bytestring_def digitsValue_def isDigit_def less_eq_char_def)

lemma bencode_le: "bencode ''le''"
  using bencode.list [of "[]"] by simp

lemma bencode_de: "bencode ''de''"
  using bencode.dictionary [of "[]"] by (simp add: entries_def)

lemma bencode_examples:
  "bencode ''d3:cowlee''" "bencode ''d1:ai1e1:alee''"
proof -
  have i1: "bencode ''i1e''" using bencode.integer [of "''1''"] by (simp add: isDigit_def less_eq_char_def)
  from bencode.dictionary [of "[(''3:cow'', ''le'')]"] bencode_le bytestring_example
  show "bencode ''d3:cowlee''" by (simp add: entries_def)
  from bencode.dictionary [of "[(''1:a'', ''i1e''), (''1:a'', ''le'')]"] bencode_le i1
    bytestring_example
  show "bencode ''d1:ai1e1:alee''" by (simp add: entries_def)
qed

section \<open>Values of the grammar that the decoder reads\<close>

text \<open>
  The decoder reads every value of the grammar that is within the bounds of the host and
  holds no empty container: a byte string as its raw bytes, an integer as the number that
  its numeral denotes, a list and a dictionary by the loops on their elements.
\<close>

lemma readable_bencode: "readable p \<Longrightarrow> bencode p"
proof (induction rule: readable.induct)
  case (bytestring p)
  then show ?case by (simp add: bencode.bytestring)
next
  case (integer ds)
  then show ?case by (simp add: bencode.integer)
next
  case (list ps)
  then show ?case by (simp add: bencode.list)
next
  case (dictionary es)
  then show ?case by (simp add: bencode.dictionary)
qed

lemma bytestring_reads_key:
  assumes "bytestring k" and "length k < 2 ^ 63"
  shows "Context_GetString k = Inr (drop (Suc (digitRun k)) k, [])"
proof -
  let ?p = "digitRun k"
  from assms have pos: "0 < ?p" and lt: "?p < length k" and colon: "k ! ?p = CHR '':''"
    and val0: "digitsValue (take ?p k) = length (drop (Suc ?p) k)"
    by (simp_all add: bytestring_def Let_def)
  define raw where "raw = drop (Suc ?p) k"
  from lt colon have dr: "drop ?p k = CHR '':'' # raw"
    by (simp add: raw_def flip: Cons_nth_drop_Suc)
  from val0 have val: "digitsValue (take ?p k) = length raw" by (simp add: raw_def)
  from pos lt have ne: "take ?p k \<noteq> []" by auto
  note pi = ParseInt_digits [OF ne digitRun_take, unfolded val]
  have "length raw \<le> length k" by (simp add: raw_def)
  with assms(2) have True: "length raw < 2 ^ 63" by simp
  note sint = sint_word_of_nat [OF True]
  have "Context_GetString k = Inr (raw, [])"
    unfolding Context_GetString_def Let_def dr
    using pi True by (simp add: RemoveACharacter_def sint)
  then show ?thesis by (simp add: raw_def)
qed

lemma bytestring_reads:
  assumes "bytestring k" and "length k < 2 ^ 63"
  shows "reads k (NewString (drop (Suc (digitRun k)) k))"
proof -
  from bytestring_decided_key [OF assms(1)] have ne: "k \<noteq> []" and dg: "isDigit (hd k)"
    by (simp_all add: decided_key_def)
  from dg have "CHR ''0'' \<le> hd k \<and> hd k \<le> CHR ''9''" by (simp add: isDigit_def)
  with ne have "ParseValue k = ParseString k" by (simp add: ParseValue_hd)
  with bytestring_reads_key [OF assms] show ?thesis
    by (simp add: reads_def ParseString_def NewString_def)
qed

lemma integer_reads:
  assumes "ds \<noteq> []" and "list_all isDigit ds" and "digitsValue ds < 2 ^ 63"
  shows "reads (CHR ''i'' # ds @ ''e'') (NewNumber (word_of_nat (digitsValue ds)))"
proof -
  have run: "digitRun (ds @ ''e'') = length ds"
    using assms(2) by (intro digitRun_append) (simp_all add: isDigit_def less_eq_char_def)
  from ParseInt_digits [OF assms(1,2)] assms(3) run show ?thesis
    by (simp add: reads_def ParseValue_hd less_eq_char_def ParseNumber_def RemoveACharacter_def
        NewNumber_def)
qed

lemma list_all2_choice:
  assumes "\<forall>x \<in> set xs. \<exists>y. P x y"
  shows "\<exists>ys. list_all2 P xs ys"
  using assms
proof (induction xs)
  case Nil
  then show ?case by simp
next
  case (Cons x xs)
  then obtain y ys where "P x y" and "list_all2 P xs ys" by auto
  then have "list_all2 P (x # xs) (y # ys)" by simp
  then show ?case by blast
qed

lemma readable_reads: "readable p \<Longrightarrow> \<exists>v. reads p v"
proof (induction rule: readable.induct)
  case (bytestring p)
  then show ?case using bytestring_reads by blast
next
  case (integer ds)
  then show ?case using integer_reads by blast
next
  case (list ps)
  then have "\<forall>p \<in> set ps. \<exists>v. reads p v" by simp
  then obtain vs where vs: "list_all2 reads ps vs" using list_all2_choice by blast
  from ParseArray_loop_concat [OF vs list.hyps(1), where array = "[]" and rest = "''e''"]
  have "reads (CHR ''l'' # concat ps @ ''e'') (Value Array [] 0 vs [])"
    by (simp add: reads_def ParseValue_l)
  then show ?case by blast
next
  case (dictionary es)
  have "\<forall>e \<in> set es. \<exists>kv. reads_entry e kv"
  proof
    fix e assume "e \<in> set es"
    with dictionary.IH obtain v where k: "bytestring (fst e)" "length (fst e) < 2 ^ 63"
      and v: "reads (snd e) v" by blast
    from bytestring_reads_key [OF k] v
    have "reads_entry e (drop (Suc (digitRun (fst e))) (fst e), v)"
      by (simp add: reads_entry_def reads_def)
    then show "\<exists>kv. reads_entry e kv" by blast
  qed
  then obtain kvs where kvs: "list_all2 reads_entry es kvs" using list_all2_choice by blast
  from ParseObject_loop_entries [OF kvs dictionary.hyps(1), where object = "[]" and rest = "''e''"]
  have "reads (CHR ''d'' # entries es @ ''e'') (Value Object [] 0 [] (store kvs []))"
    by (simp add: reads_def ParseValue_d)
  then show ?case by blast
qed

lemma readable_examples:
  "readable ''4:spam''" "readable ''d1:ai1e1:ai2ee''"
proof -
  from readable.bytestring [of "''4:spam''"] bytestring_example
  show "readable ''4:spam''" by simp
  have "readable ''i1e''" "readable ''i2e''"
    using readable.integer [of "''1''"] readable.integer [of "''2''"]
    by (simp_all add: isDigit_def less_eq_char_def digitsValue_def)
  with readable.dictionary [of "[(''1:a'', ''i1e''), (''1:a'', ''i2e'')]"] bytestring_example
  show "readable ''d1:ai1e1:ai2ee''" by (simp add: entries_def)
qed

section \<open>Trailing bytes after the first value\<close>

text \<open>
  Bytes that follow a value of the grammar are never read: \<open>Decode\<close> gives on \<open>p @ t\<close>
  what it gives on \<open>p\<close> alone, a value or an error. And bytes appended to any input that
  decodes to a value give an input that decodes to the same value.
\<close>

lemma Decode_bencode_trailing:
  assumes "bencode p"
  shows "Decode (p @ t) = Decode p"
proof -
  from bencode_decided [OF assms] show ?thesis
  proof (cases rule: decided_cases)
    case (accept v)
    from accept [of t] accept [of "[]"] show ?thesis by (simp add: Decode_def)
  next
    case (reject e)
    from reject(1) [of t] reject(1) [of "[]"] show ?thesis by (simp add: Decode_def)
  qed
qed

lemma Decode_append:
  assumes "Decode p = Inr v"
  shows "Decode (p @ t) = Inr v"
proof -
  from assms obtain r where "ParseValue p = Inr (v, r)"
    by (cases "ParseValue p") (auto simp: Decode_def)
  then have "ParseValue (p @ t) = Inr (v, r @ t)" by (rule ParseValue_append)
  then show ?thesis by (simp add: Decode_def)
qed

text \<open>
  On an input that starts with a value of the grammar within the bounds of the host and
  without an empty container, \<open>Decode\<close> succeeds and returns the value of that prefix.
\<close>

lemma Decode_readable:
  assumes "readable p"
  shows "\<exists>v. Decode p = Inr v \<and> (\<forall>t. Decode (p @ t) = Inr v)"
proof -
  from readable_reads [OF assms] obtain v where "reads p v" by blast
  then have "Decode p = Inr v" by (simp add: reads_def Decode_def)
  then show ?thesis using Decode_append by blast
qed

text \<open>
  Claim C4. The claim is that \<open>Decode\<close> succeeds on every input that begins with a
  complete well-formed value. The empty list \<^verbatim>\<open>le\<close>, the empty dictionary \<^verbatim>\<open>de\<close> and
  the dictionary \<^verbatim>\<open>d3:cowlee\<close> are values of the grammar (lemmas \<open>bencode_le\<close>,
  \<open>bencode_de\<close>, \<open>bencode_examples\<close>), and on each of them followed by \<^verbatim>\<open>JUNK\<close> \<open>Decode\<close>
  fails: the loops of \<open>ParseArray\<close> and \<open>ParseObject\<close> parse an element before they test
  for the closing \<^verbatim>\<open>e\<close>, the defect of claim C1. The instance of the claim holds:
  \<^verbatim>\<open>4:spamJUNK\<close> decodes to the byte string \<^verbatim>\<open>spam\<close>. The trailing bytes themselves are
  ignored on every value of the grammar (lemma \<open>Decode_bencode_trailing\<close>), and away
  from the empty containers \<open>Decode\<close> succeeds (lemma \<open>Decode_readable\<close>).
\<close>

theorem Decode_trailing_bytes_empty_container:
  "Decode ''leJUNK'' = Inl (ErrorCharacter CHR ''e'') \<and>
   Decode ''deJUNK'' = Inl SyntaxError \<and>
   Decode ''d3:cowleeJUNK'' = Inl (ErrorCharacter CHR ''e'') \<and>
   Decode ''4:spamJUNK'' = Inr (NewString ''spam'')"
  by (simp add: decode_eval NewString_def)

section \<open>Duplicate keys\<close>

text \<open>
  On a dictionary input with at least one entry, each a key and a value that the
  decoder reads, \<open>Decode\<close> returns a dictionary with one entry per key (\<open>distinct\<close>), in
  which every key is bound to the value of its last occurrence in the input:
  \<open>map_of (rev kvs)\<close> looks a key up from the end of the sequence of entries.
\<close>

lemma Decode_last_write_wins:
  assumes "list_all2 reads_entry es kvs" and "es \<noteq> []"
  shows "\<exists>object. Decode (CHR ''d'' # entries es @ ''e'') = Inr (Value Object [] 0 [] object) \<and>
           distinct (map fst object) \<and> map_of object = map_of (rev kvs)"
proof -
  have "ParseObject_loop [] (entries es @ ''e'') =
      Inr (Value Object [] 0 [] (store kvs []), [])"
    by (simp add: ParseObject_loop_entries [OF assms])
  then have "Decode (CHR ''d'' # entries es @ ''e'') = Inr (Value Object [] 0 [] (store kvs []))"
    by (simp add: Decode_def ParseValue_d)
  moreover have "distinct (map fst (store kvs []))" by (simp add: distinct_store)
  moreover have "map_of (store kvs []) = map_of (rev kvs)" by (simp add: map_of_store)
  ultimately show ?thesis by blast
qed

text \<open>
  The same on the dictionaries of the grammar: with at least one entry, the keys and the
  values within the bounds of the host and no empty container among the values, \<open>Decode\<close>
  succeeds, whatever follows the dictionary; the keys read are the raw bytes of the keys
  of the input, in their order, and each is bound to the value of its last occurrence.
\<close>

lemma Decode_readable_dictionary:
  assumes "es \<noteq> []"
    and "\<forall>e \<in> set es. bytestring (fst e) \<and> length (fst e) < 2 ^ 63 \<and> readable (snd e)"
  shows "\<exists>kvs object.
           list_all2 reads_entry es kvs \<and>
           map fst kvs = map (\<lambda>e. drop (Suc (digitRun (fst e))) (fst e)) es \<and>
           Decode (CHR ''d'' # entries es @ ''e'' @ t) = Inr (Value Object [] 0 [] object) \<and>
           distinct (map fst object) \<and> map_of object = map_of (rev kvs)"
proof -
  let ?key = "\<lambda>e. drop (Suc (digitRun (fst e))) (fst e)"
  have "\<forall>e \<in> set es. \<exists>kv. reads_entry e kv \<and> fst kv = ?key e"
  proof
    fix e assume "e \<in> set es"
    with assms(2) have k: "bytestring (fst e)" "length (fst e) < 2 ^ 63"
      and "readable (snd e)" by simp_all
    then obtain v where v: "reads (snd e) v" using readable_reads by blast
    from bytestring_reads_key [OF k] v have "reads_entry e (?key e, v)"
      by (simp add: reads_entry_def reads_def)
    then show "\<exists>kv. reads_entry e kv \<and> fst kv = ?key e" by force
  qed
  then obtain kvs where both: "list_all2 (\<lambda>e kv. reads_entry e kv \<and> fst kv = ?key e) es kvs"
    using list_all2_choice [of es "\<lambda>e kv. reads_entry e kv \<and> fst kv = ?key e"] by blast
  then have kvs: "list_all2 reads_entry es kvs"
    and "list_all2 (\<lambda>e kv. fst kv = ?key e) es kvs"
    by (simp_all add: list_all2_conv_all_nth)
  then have keys: "map fst kvs = map ?key es"
    by (induction es kvs rule: list_all2_induct) simp_all
  from Decode_last_write_wins [OF kvs assms(1)] obtain object
    where "Decode (CHR ''d'' # entries es @ ''e'') = Inr (Value Object [] 0 [] object)"
      and object: "distinct (map fst object)" "map_of object = map_of (rev kvs)"
    by blast
  from Decode_append [OF this(1), of t]
  have "Decode (CHR ''d'' # entries es @ ''e'' @ t) = Inr (Value Object [] 0 [] object)"
    by simp
  with kvs keys object show ?thesis by blast
qed

text \<open>
  Claim C6. The claim is that on every well-formed dictionary input that holds a key
  more than once \<open>Decode\<close> keeps the value of the last occurrence. The input
  \<^verbatim>\<open>d1:ai1e1:alee\<close> is a dictionary of the grammar (lemma \<open>bencode_examples\<close>) that binds
  \<^verbatim>\<open>a\<close> to 1, then to the empty list; on it \<open>Decode\<close> fails with
  \<^verbatim>\<open>error character: 101\<close> instead of returning the dictionary that binds \<^verbatim>\<open>a\<close> to the
  empty list. The loop of \<open>ParseArray\<close> parses an element before it tests for the
  closing \<^verbatim>\<open>e\<close>: the defect of claim C1. The instance of the claim holds:
  \<^verbatim>\<open>d1:ai1e1:ai2ee\<close> decodes to the dictionary that binds \<^verbatim>\<open>a\<close> to 2. Away from the
  empty containers the last occurrence wins (lemma \<open>Decode_readable_dictionary\<close>).
\<close>

theorem Decode_duplicate_keys_empty_container:
  "Decode ''d1:ai1e1:alee'' = Inl (ErrorCharacter CHR ''e'') \<and>
   Decode ''d1:ai1e1:ai2ee'' = Inr (Value Object [] 0 [] [(''a'', NewNumber 2)])"
  by (simp add: decode_eval NewNumber_def)

section \<open>Inputs cut short\<close>

text \<open>
  What a parsing function does on an input \<open>b @ t\<close> decides what it does on \<open>b\<close>: the
  same, when it stops before \<open>t\<close>; the syntax error, when it needs bytes of \<open>t\<close>. So
  every input cut short of one that the decoder reads is rejected with the syntax error.
\<close>

lemma digitRun_full_append:
  "digitRun b = length b \<Longrightarrow> digitRun (b @ t) = length b + digitRun t"
  by (induction b) (auto split: if_splits)

lemma digitRun_cases: "digitRun b = length b \<or> digitRun b < length b"
  using digitRun_le [of b] by auto

lemma Context_GetString_Inl: "Context_GetString b = Inl e \<Longrightarrow> e = SyntaxError"
  by (auto simp: Context_GetString_def Let_def split: option.splits sum.splits if_splits)

lemma Context_GetString_all_digits:
  "digitRun b = length b \<Longrightarrow> Context_GetString b = Inl SyntaxError"
  by (simp add: Context_GetString_def Let_def RemoveACharacter_def split: option.splits)

lemma Context_GetString_split:
  assumes "Context_GetString (b @ t) = Inr (s, r)"
  shows "(length t \<le> length r \<longrightarrow> (\<exists>y. r = y @ t \<and> Context_GetString b = Inr (s, y))) \<and>
         (length r < length t \<longrightarrow> Context_GetString b = Inl SyntaxError)"
proof -
  let ?n = "digitRun (b @ t)"
  from assms obtain Len where pi: "ParseInt (take ?n (b @ t)) = Some Len"
    by (cases "ParseInt (take ?n (b @ t))") (simp_all add: Context_GetString_def)
  from assms pi obtain b' where rm: "drop ?n (b @ t) = CHR '':'' # b'"
    by (cases "RemoveACharacter CHR '':'' (drop ?n (b @ t))")
      (simp_all add: Context_GetString_def RemoveACharacter_Inr)
  from assms pi rm have len: "sint Len \<le> int (length b')"
    and s: "s = take (nat (sint Len)) b'" and r: "r = drop (nat (sint Len)) b'"
    by (simp_all add: Context_GetString_def RemoveACharacter_def split: if_splits)
  show ?thesis
  proof (cases "digitRun b < length b")
    case True
    then have run: "?n = digitRun b" by (rule digitRun_append_stable)
    with True have tk: "take ?n (b @ t) = take (digitRun b) b" by simp
    from True run rm have dr: "drop (digitRun b) b @ t = CHR '':'' # b'" by simp
    from True obtain y0 where y0: "drop (digitRun b) b = CHR '':'' # y0"
      using dr by (cases "drop (digitRun b) b") auto
    with dr have b': "b' = y0 @ t" by simp
    show ?thesis
    proof (cases "nat (sint Len) \<le> length y0")
      case le: True
      with b' r have r': "r = drop (nat (sint Len)) y0 @ t" by simp
      then have ge: "\<not> length r < length t" by simp
      from le b' s have s': "s = take (nat (sint Len)) y0" by simp
      from le have "\<not> int (length y0) < sint Len" by simp
      with pi have "Context_GetString b = Inr (s, drop (nat (sint Len)) y0)"
        unfolding tk by (simp add: Context_GetString_def y0 RemoveACharacter_def s')
      with r' ge show ?thesis by blast
    next
      case False
      then have gt: "int (length y0) < sint Len" by simp
      from len b' have "nat (sint Len) \<le> length y0 + length t" by simp
      with False have "length t + length y0 - nat (sint Len) < length t" by arith
      with b' r have "length r < length t" by simp
      moreover from pi gt have "Context_GetString b = Inl SyntaxError"
        unfolding tk by (simp add: Context_GetString_def y0 RemoveACharacter_def)
      ultimately show ?thesis by simp
    qed
  next
    case False
    with digitRun_cases [of b] have full: "digitRun b = length b" by simp
    then have "?n = length b + digitRun t" by (rule digitRun_full_append)
    with rm have "drop (digitRun t) t = CHR '':'' # b'" by simp
    then have "length b' < length t" by (rule drop_Cons_shorter)
    with r have "length r < length t" by simp
    with Context_GetString_all_digits [OF full] show ?thesis by simp
  qed
qed

lemma ParseString_split:
  assumes "ParseString (b @ t) = Inr (v, r)"
  shows "(length t \<le> length r \<longrightarrow> (\<exists>y. r = y @ t \<and> ParseString b = Inr (v, y))) \<and>
         (length r < length t \<longrightarrow> ParseString b = Inl SyntaxError)"
proof -
  from assms obtain s where gs: "Context_GetString (b @ t) = Inr (s, r)"
    and v: "v = Value String s 0 [] []"
    by (cases "Context_GetString (b @ t)") (auto simp: ParseString_def)
  from Context_GetString_split [OF gs] v show ?thesis
    by (auto simp: ParseString_def)
qed


lemma ParseNumber_Nil: "ParseNumber [] = Inl SyntaxError"
  by (simp add: ParseNumber_def RemoveACharacter_def)

lemma ParseNumber_all_digits:
  "digitRun b1 = length b1 \<Longrightarrow> ParseNumber (CHR ''i'' # b1) = Inl SyntaxError"
  by (simp add: ParseNumber_def Let_def RemoveACharacter_def split: option.splits)

lemma ParseNumber_split:
  assumes "ParseNumber (b @ t) = Inr (v, r)"
  shows "(length t \<le> length r \<longrightarrow> (\<exists>y. r = y @ t \<and> ParseNumber b = Inr (v, y))) \<and>
         (length r < length t \<longrightarrow> ParseNumber b = Inl SyntaxError)"
proof (cases b)
  case Nil
  with assms have "length r < length t" by (simp add: ParseNumber_shorter)
  with Nil show ?thesis by (simp add: ParseNumber_Nil)
next
  case (Cons c b1)
  with assms have c: "c = CHR ''i''"
    by (cases "c = CHR ''i''") (simp_all add: ParseNumber_def RemoveACharacter_def)
  let ?n = "digitRun (b1 @ t)"
  from assms Cons c obtain number where pi: "ParseInt (take ?n (b1 @ t)) = Some number"
    by (cases "ParseInt (take ?n (b1 @ t))") (simp_all add: ParseNumber_def RemoveACharacter_def)
  from assms Cons c pi have rm: "RemoveACharacter CHR ''e'' (drop ?n (b1 @ t)) = Inr r"
    and v: "v = Value Number [] number [] []"
    by (cases "RemoveACharacter CHR ''e'' (drop ?n (b1 @ t))";
        simp add: ParseNumber_def RemoveACharacter_def [of "CHR ''i''"])+
  from rm have dr: "drop ?n (b1 @ t) = CHR ''e'' # r" by (simp add: RemoveACharacter_Inr)
  show ?thesis
  proof (cases "digitRun b1 < length b1")
    case True
    then have run: "?n = digitRun b1" by (rule digitRun_append_stable)
    with True have tk: "take ?n (b1 @ t) = take (digitRun b1) b1" by simp
    from True run dr have "drop (digitRun b1) b1 @ t = CHR ''e'' # r" by simp
    with True obtain y where y: "drop (digitRun b1) b1 = CHR ''e'' # y" and r: "r = y @ t"
      by (cases "drop (digitRun b1) b1") auto
    from pi have "ParseNumber b = Inr (v, y)"
      unfolding tk by (simp add: ParseNumber_def Cons c y v RemoveACharacter_def)
    with r show ?thesis by simp
  next
    case False
    with digitRun_cases [of b1] have full: "digitRun b1 = length b1" by simp
    then have "?n = length b1 + digitRun t" by (rule digitRun_full_append)
    with dr have "drop (digitRun t) t = CHR ''e'' # r" by simp
    then have "length r < length t" by (rule drop_Cons_shorter)
    with ParseNumber_all_digits [OF full] Cons c show ?thesis by simp
  qed
qed

lemma ParseArray_loop_after:
  assumes "ParseValue b = Inr (ele, b')" and "ParseArray_loop array b = Inr (v, r)"
  shows "length r < length b'"
proof (cases "b' \<noteq> [] \<and> hd b' = CHR ''e''")
  case True
  with assms have "r = tl b'" by (simp add: ParseArray_loop_step)
  with True show ?thesis by simp
next
  case False
  with assms have "ParseArray_loop (array @ [ele]) b' = Inr (v, r)"
    by (simp add: ParseArray_loop_step)
  then show ?thesis by (rule ParseArray_loop_shorter)
qed

lemma ParseObject_loop_after:
  assumes "Context_GetString b = Inr (key, b1)" and "ParseValue b1 = Inr (attribute, b2)"
    and "ParseObject_loop object b = Inr (v, r)"
  shows "length r < length b2"
proof (cases "b2 \<noteq> [] \<and> hd b2 = CHR ''e''")
  case True
  with assms have "r = tl b2" by (simp add: ParseObject_loop_step)
  with True show ?thesis by simp
next
  case False
  with assms have "ParseObject_loop (AList.update key attribute object) b2 = Inr (v, r)"
    by (simp add: ParseObject_loop_step)
  then show ?thesis by (rule ParseObject_loop_shorter)
qed

lemma cut_same: "whole = whole' \<Longrightarrow> part = part' \<Longrightarrow> cut whole' part' t \<Longrightarrow> cut whole part t"
  by simp

lemma cut_Inl: "whole = Inl e \<Longrightarrow> cut whole part t"
  by (simp add: cut_def)

lemma cut_within: "whole = Inr (v, y @ t) \<Longrightarrow> part = Inr (v, y) \<Longrightarrow> cut whole part t"
  by (simp add: cut_def)

lemma cut_beyond:
  "(\<And>v r. whole = Inr (v, r) \<Longrightarrow> length r < length t) \<Longrightarrow> part = Inl SyntaxError \<Longrightarrow>
   cut whole part t"
  by (auto simp: cut_def)

lemma cut_cases:
  assumes "cut whole part t" and "whole = Inr (v, r)"
  obtains (within) y where "r = y @ t" and "part = Inr (v, y)"
    | (beyond) "length r < length t" and "part = Inl SyntaxError"
  using assms unfolding cut_def by (cases "length r < length t") auto

lemma Parse_cut:
  "cut (ParseValue (b1 @ t)) (ParseValue b1) t"
  "cut (ParseArray (b2 @ t)) (ParseArray b2) t"
  "cut (ParseArray_loop array (b3 @ t)) (ParseArray_loop array b3) t"
  "cut (ParseObject (b4 @ t)) (ParseObject b4) t"
  "cut (ParseObject_loop object (b5 @ t)) (ParseObject_loop object b5) t"
proof (induct b1 and b2 and array b3 and b4 and object b5
    rule: ParseValue_ParseArray_ParseArray_loop_ParseObject_ParseObject_loop.induct)
  case (1 b)
  show ?case
  proof (cases "b = []")
    case True
    show ?thesis
    proof (rule cut_beyond)
      fix v r
      assume "ParseValue (b @ t) = Inr (v, r)"
      with True show "length r < length t" by (auto dest: ParseValue_shorter)
    next
      from True show "ParseValue b = Inl SyntaxError" by (simp add: ParseValue_Nil)
    qed
  next
    case ne: False
    then have pk: "PeekACharacter b = Inr (hd b)" by (simp add: PeekACharacter_def)
    from ne have ne': "b @ t \<noteq> []" and hd: "hd (b @ t) = hd b" by simp_all
    show ?thesis
    proof (cases "CHR ''0'' \<le> hd b \<and> hd b \<le> CHR ''9''")
      case True
      then have "ParseValue (b @ t) = ParseString (b @ t)" "ParseValue b = ParseString b"
        by (simp_all add: ParseValue_hd [OF ne'] ParseValue_hd [OF ne] hd)
      then show ?thesis using ParseString_split [of b t] by (auto simp: cut_def)
    next
      case nd: False
      show ?thesis
      proof (cases "hd b = CHR ''i''")
        case True
        with nd have "ParseValue (b @ t) = ParseNumber (b @ t)" "ParseValue b = ParseNumber b"
          by (simp_all add: ParseValue_hd [OF ne'] ParseValue_hd [OF ne] hd)
        then show ?thesis using ParseNumber_split [of b t] by (auto simp: cut_def)
      next
        case ni: False
        show ?thesis
        proof (cases "hd b = CHR ''l''")
          case True
          with nd ni have "ParseValue (b @ t) = ParseArray (b @ t)" "ParseValue b = ParseArray b"
            by (simp_all add: ParseValue_hd [OF ne'] ParseValue_hd [OF ne] hd)
          with "1.hyps"(1) [OF pk nd ni True] show ?thesis by simp
        next
          case nl: False
          show ?thesis
          proof (cases "hd b = CHR ''d''")
            case True
            with nd ni nl have "ParseValue (b @ t) = ParseObject (b @ t)"
              "ParseValue b = ParseObject b"
              by (simp_all add: ParseValue_hd [OF ne'] ParseValue_hd [OF ne] hd)
            with "1.hyps"(2) [OF pk nd ni nl True] show ?thesis by simp
          next
            case False
            from nd have "(CHR ''0'' \<le> hd b \<and> hd b \<le> CHR ''9'') = False" by simp
            with ni nl False have "ParseValue (b @ t) = Inl (ErrorCharacter (hd b))"
              by (simp only: ParseValue_hd [OF ne'] hd if_False)
            then show ?thesis by (rule cut_Inl)
          qed
        qed
      qed
    qed
  qed
next
  case (2 b)
  show ?case
  proof (cases "b \<noteq> [] \<and> hd b = CHR ''l''")
    case True
    then have "RemoveACharacter CHR ''l'' b = Inr (tl b)" by (simp add: RemoveACharacter_cases)
    from "2.hyps" [OF this] True show ?thesis by (simp add: ParseArray_hd)
  next
    case False
    show ?thesis
    proof (cases "b = []")
      case True
      show ?thesis
      proof (rule cut_beyond)
        fix v r
        assume "ParseArray (b @ t) = Inr (v, r)"
        with True show "length r < length t" by (auto dest: ParseArray_shorter)
      next
        from True show "ParseArray b = Inl SyntaxError" by (simp add: ParseArray_hd)
      qed
    next
      case ne: False
      with False have "ParseArray (b @ t) = Inl SyntaxError" by (simp add: ParseArray_hd)
      then show ?thesis by (rule cut_Inl)
    qed
  qed
next
  case (3 array b)
  show ?case
    unfolding cut_def
  proof (intro allI impI)
    fix v r
    assume whole: "ParseArray_loop array (b @ t) = Inr (v, r)"
    then obtain ele b'' where pv': "ParseValue (b @ t) = Inr (ele, b'')"
      by (cases "ParseValue (b @ t)") (auto simp: ParseArray_loop_Inl)
    note after = ParseArray_loop_after [OF pv' whole]
    from "3.hyps"(1) pv'
    show "(length t \<le> length r \<longrightarrow> (\<exists>y. r = y @ t \<and> ParseArray_loop array b = Inr (v, y))) \<and>
        (length r < length t \<longrightarrow> ParseArray_loop array b = Inl SyntaxError)"
    proof (cases rule: cut_cases)
      case beyond
      with after have "length r < length t" by simp
      with beyond show ?thesis by (simp add: ParseArray_loop_Inl)
    next
      case (within y)
      note pv = within(2)
      show ?thesis
      proof (cases "y = []")
        case True
        with pv have "ParseArray_loop array b = Inl SyntaxError"
          by (simp add: ParseArray_loop_step ParseArray_loop_Inl ParseValue_Nil)
        moreover from after within(1) True have "length r < length t" by simp
        ultimately show ?thesis by simp
      next
        case ne: False
        show ?thesis
        proof (cases "hd y = CHR ''e''")
          case True
          with ne whole pv' within(1) have "r = tl y @ t"
            by (simp add: ParseArray_loop_step)
          moreover from True ne whole pv' within(1) pv
          have "ParseArray_loop array b = Inr (v, tl y)"
            by (simp add: ParseArray_loop_step)
          ultimately show ?thesis by simp
        next
          case False
          with ne have rm: "RemoveACharacter CHR ''e'' y = Inl SyntaxError"
            by (simp add: RemoveACharacter_cases)
          from False ne whole pv' within(1)
          have w: "ParseArray_loop (array @ [ele]) (y @ t) = Inr (v, r)"
            by (simp add: ParseArray_loop_step)
          from False ne pv
          have p: "ParseArray_loop array b = ParseArray_loop (array @ [ele]) y"
            by (simp add: ParseArray_loop_step)
          from "3.hyps"(2) [OF pv refl rm] w show ?thesis
            unfolding cut_def p by blast
        qed
      qed
    qed
  qed
next
  case (4 b)
  show ?case
  proof (cases "b \<noteq> [] \<and> hd b = CHR ''d''")
    case True
    then have "RemoveACharacter CHR ''d'' b = Inr (tl b)" by (simp add: RemoveACharacter_cases)
    from "4.hyps" [OF this] True show ?thesis by (simp add: ParseObject_hd)
  next
    case False
    show ?thesis
    proof (cases "b = []")
      case True
      show ?thesis
      proof (rule cut_beyond)
        fix v r
        assume "ParseObject (b @ t) = Inr (v, r)"
        with True show "length r < length t" by (auto dest: ParseObject_shorter)
      next
        from True show "ParseObject b = Inl SyntaxError" by (simp add: ParseObject_hd)
      qed
    next
      case ne: False
      with False have "ParseObject (b @ t) = Inl SyntaxError" by (simp add: ParseObject_hd)
      then show ?thesis by (rule cut_Inl)
    qed
  qed
next
  case (5 object b)
  show ?case
    unfolding cut_def
  proof (intro allI impI)
    fix v r
    assume whole: "ParseObject_loop object (b @ t) = Inr (v, r)"
    then obtain key b1'' where gs': "Context_GetString (b @ t) = Inr (key, b1'')"
      by (cases "Context_GetString (b @ t)") (auto simp: ParseObject_loop_Inl1)
    from whole gs' obtain attribute b2'' where pv': "ParseValue b1'' = Inr (attribute, b2'')"
      by (cases "ParseValue b1''") (auto simp: ParseObject_loop_Inl2)
    note after = ParseObject_loop_after [OF gs' pv' whole]
    from pv' have lt2: "length b2'' < length b1''" by (rule ParseValue_shorter)
    let ?object = "AList.update key attribute object"
    show "(length t \<le> length r \<longrightarrow> (\<exists>y. r = y @ t \<and> ParseObject_loop object b = Inr (v, y))) \<and>
        (length r < length t \<longrightarrow> ParseObject_loop object b = Inl SyntaxError)"
    proof (cases "length b1'' < length t")
      case True
      with Context_GetString_split [OF gs'] have "Context_GetString b = Inl SyntaxError"
        by simp
      then have "ParseObject_loop object b = Inl SyntaxError" by (rule ParseObject_loop_Inl1)
      moreover from True lt2 after have "length r < length t" by simp
      ultimately show ?thesis by simp
    next
      case False
      with Context_GetString_split [OF gs'] obtain y1 where b1: "b1'' = y1 @ t"
        and gs: "Context_GetString b = Inr (key, y1)"
        by auto
      from "5.hyps"(1) [OF gs refl] pv' [unfolded b1] show ?thesis
      proof (cases rule: cut_cases)
        case beyond
        with after have "length r < length t" by simp
        with beyond gs show ?thesis by (simp add: ParseObject_loop_Inl2)
      next
        case (within y)
        note pv = within(2)
        note pvw = pv' [unfolded b1 within(1)]
        note gsw = gs' [unfolded b1]
        show ?thesis
        proof (cases "y = []")
          case True
          with gs pv have "ParseObject_loop object b = Inl SyntaxError"
            by (simp add: ParseObject_loop_step ParseObject_loop_Inl1 Context_GetString_Nil)
          moreover from after within(1) True have "length r < length t" by simp
          ultimately show ?thesis by simp
        next
          case ne: False
          show ?thesis
          proof (cases "hd y = CHR ''e''")
            case True
            with ne whole have "r = tl y @ t"
              by (simp add: ParseObject_loop_step [OF gsw pvw])
            moreover from True ne whole
            have "ParseObject_loop object b = Inr (v, tl y)"
              by (simp add: ParseObject_loop_step [OF gsw pvw] ParseObject_loop_step [OF gs pv])
            ultimately show ?thesis by simp
          next
            case False
            with ne have rm: "RemoveACharacter CHR ''e'' y = Inl SyntaxError"
              by (simp add: RemoveACharacter_cases)
            from False ne whole
            have w: "ParseObject_loop ?object (y @ t) = Inr (v, r)"
              by (simp add: ParseObject_loop_step [OF gsw pvw])
            from False ne
            have p: "ParseObject_loop object b = ParseObject_loop ?object y"
              by (simp add: ParseObject_loop_step [OF gs pv])
            from "5.hyps"(2) [OF gs refl pv refl rm] w show ?thesis
              unfolding cut_def p by blast
          qed
        qed
      qed
    qed
  qed
qed

lemma ParseValue_truncated:
  assumes "ParseValue p = Inr (v, [])" and "n < length p"
  shows "ParseValue (take n p) = Inl SyntaxError"
proof -
  have "cut (ParseValue (take n p @ drop n p)) (ParseValue (take n p)) (drop n p)"
    by (rule Parse_cut(1))
  with assms show ?thesis by (simp add: cut_def)
qed

text \<open>
  No proper prefix of a value of the grammar decodes to a value: a success on the prefix
  would be a success on the whole value that leaves bytes of it unread, and the decoder
  either reads a value of the grammar to its last byte or rejects it.
\<close>

lemma Decode_bencode_prefix:
  assumes "bencode p" and "n < length p"
  shows "\<exists>e. Decode (take n p) = Inl e"
proof (cases "ParseValue (take n p)")
  case (Inl e)
  then show ?thesis by (simp add: Decode_def)
next
  case (Inr x)
  obtain v r where "x = (v, r)" by (cases x)
  with Inr have "ParseValue (take n p) = Inr (v, r)" by simp
  from ParseValue_append [OF this, of "drop n p"]
  have whole: "ParseValue p = Inr (v, r @ drop n p)" by simp
  from assms(2) have rest: "r @ drop n p \<noteq> []" by simp
  from bencode_decided [OF assms(1)] show ?thesis
  proof (cases rule: decided_cases)
    case (accept v')
    from accept [of "[]"] whole rest show ?thesis by simp
  next
    case (reject e)
    from reject(1) [of "[]"] whole show ?thesis by simp
  qed
qed

section \<open>Unterminated containers\<close>

text \<open>
  In a container without its closing \<^verbatim>\<open>e\<close> the loop reads the elements, each with one
  outcome whatever follows, and fails on the first that fails; when it has read them
  all it starts on one more element, on an empty cursor or on an unterminated container.
\<close>

lemma fails_Inl: "e = SyntaxError \<or> e = ErrorCharacter CHR ''e'' \<Longrightarrow> fails (Inl e)"
  by (auto simp: fails_def)

lemma ParseArray_loop_open:
  assumes "\<forall>p \<in> set ps. decided p" and "rest = [] \<or> hd rest \<noteq> CHR ''e''"
  shows "fails (ParseArray_loop array (concat ps @ rest)) \<or>
     (\<exists>array'. ParseArray_loop array (concat ps @ rest) = ParseArray_loop array' rest)"
  using assms(1)
proof (induction ps arbitrary: array)
  case Nil
  then show ?case by auto
next
  case (Cons p ps)
  then have p: "decided p" and ps: "\<forall>p \<in> set ps. decided p" by simp_all
  from p show ?case
  proof (cases rule: decided_cases)
    case (reject e)
    then have "ParseArray_loop array (concat (p # ps) @ rest) = Inl e"
      by (simp add: ParseArray_loop_Inl)
    with reject(2) show ?thesis by (simp add: fails_Inl)
  next
    case (accept v)
    then have pv: "ParseValue (p @ concat ps @ rest) = Inr (v, concat ps @ rest)" by simp
    have ne: "\<not> (concat ps @ rest \<noteq> [] \<and> hd (concat ps @ rest) = CHR ''e'')"
    proof (cases "ps = []")
      case True
      with assms(2) show ?thesis by auto
    next
      case False
      with concat_decided_hd [OF ps False, of rest] show ?thesis by simp
    qed
    note step = ParseArray_loop_step [OF pv, of array, unfolded if_not_P [OF ne]]
    then have "ParseArray_loop array (concat (p # ps) @ rest) =
        ParseArray_loop (array @ [v]) (concat ps @ rest)"
      by simp
    with Cons.IH [OF ps, of "array @ [v]"] show ?thesis by simp
  qed
qed

lemma ParseObject_loop_open:
  assumes "\<forall>e \<in> set es. decided_key (fst e) \<and> decided (snd e)"
    and "rest = [] \<or> hd rest \<noteq> CHR ''e''"
  shows "fails (ParseObject_loop object (entries es @ rest)) \<or>
     (\<exists>object'. ParseObject_loop object (entries es @ rest) = ParseObject_loop object' rest)"
  using assms(1)
proof (induction es arbitrary: object)
  case Nil
  then show ?case by (auto simp: entries_def)
next
  case (Cons e es)
  then have k: "decided_key (fst e)" and p: "decided (snd e)"
    and es: "\<forall>e \<in> set es. decided_key (fst e) \<and> decided (snd e)"
    by simp_all
  have split: "entries (e # es) @ rest = fst e @ snd e @ entries es @ rest"
    by (simp add: entries_def)
  from k show ?case
  proof (cases rule: decided_key_cases)
    case reject
    then have "ParseObject_loop object (entries (e # es) @ rest) = Inl SyntaxError"
      unfolding split by (simp add: ParseObject_loop_Inl1)
    then show ?thesis by (simp add: fails_def)
  next
    case (accept key)
    note gs = accept [of "snd e @ entries es @ rest"]
    from p show ?thesis
    proof (cases rule: decided_cases)
      case (reject err)
      have "ParseObject_loop object (entries (e # es) @ rest) = Inl err"
        unfolding split by (rule ParseObject_loop_Inl2 [OF gs reject(1)])
      with reject(2) show ?thesis by (simp add: fails_Inl)
    next
      case (accept v)
      note pv = accept [of "entries es @ rest"]
      have ne: "\<not> (entries es @ rest \<noteq> [] \<and> hd (entries es @ rest) = CHR ''e'')"
      proof (cases "es = []")
        case True
        with assms(2) show ?thesis by (auto simp: entries_def)
      next
        case False
        with entries_decided_hd [OF es False, of rest] show ?thesis by simp
      qed
      note step = ParseObject_loop_step [OF gs pv, of object, unfolded if_not_P [OF ne]]
      then have "ParseObject_loop object (entries (e # es) @ rest) =
          ParseObject_loop (AList.update key v object) (entries es @ rest)"
        unfolding split .
      with Cons.IH [OF es, of "AList.update key v object"] show ?thesis by simp
    qed
  qed
qed

lemma unterminated_fails:
  "unterminated b \<Longrightarrow> fails (ParseValue b) \<and> b \<noteq> [] \<and> hd b \<noteq> CHR ''e''"
proof (induction rule: unterminated.induct)
  case (list ps)
  then have "\<forall>p \<in> set ps. decided p" by (simp add: bencode_decided)
  from ParseArray_loop_open [OF this, of "[]" "[]"]
  show ?case by (auto simp: ParseValue_l ParseArray_loop_Nil fails_def)
next
  case (list_inner ps u)
  then have ps: "\<forall>p \<in> set ps. decided p" by (simp add: bencode_decided)
  from list_inner.IH have u: "u = [] \<or> hd u \<noteq> CHR ''e''" by simp
  from list_inner.IH obtain e where pu: "ParseValue u = Inl e" and e: "fails (Inl e)"
    by (auto simp: fails_def)
  from ParseArray_loop_open [OF ps u, of "[]"] e
  show ?case by (auto simp: ParseValue_l ParseArray_loop_Inl [OF pu])
next
  case (dict es)
  then have "\<forall>e \<in> set es. decided_key (fst e) \<and> decided (snd e)"
    by (simp add: bencode_decided bytestring_decided_key)
  from ParseObject_loop_open [OF this, of "[]" "[]"]
  show ?case by (auto simp: ParseValue_d ParseObject_loop_Nil fails_def)
next
  case (dict_inner es k u)
  then have es: "\<forall>e \<in> set es. decided_key (fst e) \<and> decided (snd e)"
    by (simp add: bencode_decided bytestring_decided_key)
  from dict_inner.hyps(2) have k: "decided_key k" by (rule bytestring_decided_key)
  then have "k @ u = [] \<or> hd (k @ u) \<noteq> CHR ''e''"
    by (simp add: decided_key_def isDigit_not_e)
  note loop = ParseObject_loop_open [OF es this, of "[]"]
  from dict_inner.IH obtain e where pu: "ParseValue u = Inl e" and e: "fails (Inl e)"
    by (auto simp: fails_def)
  have "fails (ParseObject_loop object' (k @ u))" for object'
    using k
  proof (cases rule: decided_key_cases)
    case reject
    then show ?thesis by (simp add: ParseObject_loop_Inl1 fails_def)
  next
    case (accept key)
    from ParseObject_loop_Inl2 [OF accept pu] e show ?thesis by simp
  qed
  with loop show ?case by (auto simp: ParseValue_d)
qed

text \<open>
  Claim C7. On every unterminated container of the grammar, also nested, \<open>Decode\<close>
  returns an error and no value; \<open>Decode\<close> is a total function (its termination is proved
  above), so it returns. The error is the syntax error, or, when the decoder meets an
  empty list among the elements, which it does not read (claim C1),
  \<^verbatim>\<open>error character: 101\<close>, the error of the dispatch on the byte \<^verbatim>\<open>e\<close>: the
  specification counts an unrecognised leading byte among the syntax errors, naming the
  offending byte. In particular \<^verbatim>\<open>l4:spam\<close> gives the syntax error.
\<close>

theorem Decode_unterminated:
  "(unterminated b \<longrightarrow>
      Decode b = Inl SyntaxError \<or> Decode b = Inl (ErrorCharacter CHR ''e'')) \<and>
   Decode ''l4:spam'' = Inl SyntaxError"
proof (intro conjI impI)
  assume "unterminated b"
  then have "fails (ParseValue b)" by (simp add: unterminated_fails)
  then show "Decode b = Inl SyntaxError \<or> Decode b = Inl (ErrorCharacter CHR ''e'')"
    by (auto simp: fails_def Decode_def)
next
  show "Decode ''l4:spam'' = Inl SyntaxError" by (simp add: decode_eval)
qed

theorem Decode_unterminated_witness:
  "unterminated ''l4:spamle'' \<and> Decode ''l4:spamle'' = Inl (ErrorCharacter CHR ''e'') \<and>
   unterminated ''ld3:cowl4:spami7e'' \<and> Decode ''ld3:cowl4:spami7e'' = Inl SyntaxError"
proof -
  have b1: "bencode ''4:spam''" by (rule bencode.bytestring) (rule bytestring_example)
  have b2: "bencode ''i7e''"
    using bencode.integer [of "''7''"] by (simp add: isDigit_def less_eq_char_def)
  from unterminated.list [of "[''4:spam'', ''le'']"] b1 bencode_le
  have u0: "unterminated ''l4:spamle''" by simp
  from unterminated.list [of "[''4:spam'', ''i7e'']"] b1 b2
  have u1: "unterminated ''l4:spami7e''" by simp
  from unterminated.dict_inner [of "[]" "''3:cow''" "''l4:spami7e''"] u1 bytestring_example
  have u2: "unterminated ''d3:cowl4:spami7e''" by (simp add: entries_def)
  from unterminated.list_inner [of "[]" "''d3:cowl4:spami7e''"] u2
  have u3: "unterminated ''ld3:cowl4:spami7e''" by simp
  have d0: "Decode ''l4:spamle'' = Inl (ErrorCharacter CHR ''e'')"
    using Decode_unterminated [of "''l4:spamle''"] u0 by (simp add: decode_eval)
  have d3: "Decode ''ld3:cowl4:spami7e'' = Inl SyntaxError"
    using Decode_unterminated [of "''ld3:cowl4:spami7e''"] u3 by (simp add: decode_eval)
  from u0 u3 d0 d3 show ?thesis by simp
qed

section \<open>Lists with at least one element\<close>

text \<open>
  A list with at least one element, all of which the decoder reads back from their
  encodings, is itself read back from its encoding. This holds for the lists of scalars:
  the round trip of claim C3 fails at the empty list only.
\<close>

lemma Encode_array_concat:
  "list_all2 (\<lambda>v p. Encode v = Inr p) vs ps \<Longrightarrow>
   Encode_array prettify vs = Inr (prettify @ concat ps)"
  by (induction vs ps arbitrary: prettify rule: list_all2_induct) simp_all

lemma Decode_Encode_list:
  assumes "list_all2 (\<lambda>v p. Encode v = Inr p \<and> reads p v) vs ps" and "vs \<noteq> []"
  shows "\<exists>e. Encode (Value Array [] 0 vs []) = Inr e \<and> Decode e = Inr (Value Array [] 0 vs [])"
proof -
  from assms(1) have enc: "list_all2 (\<lambda>v p. Encode v = Inr p) vs ps"
    and dec: "list_all2 reads ps vs"
    by (simp_all add: list_all2_conv_all_nth)
  from assms have ne: "ps \<noteq> []" by auto
  have "Encode (Value Array [] 0 vs []) = Inr (CHR ''l'' # concat ps @ ''e'')"
    by (simp add: Kind_defs Encode_array_concat [OF enc])
  moreover have "Decode (CHR ''l'' # concat ps @ ''e'') = Inr (Value Array [] 0 vs [])"
    by (simp add: Decode_def ParseValue_l ParseArray_loop_concat [OF dec ne])
  ultimately show ?thesis by simp
qed

lemma scalar_reads: "scalar v \<Longrightarrow> \<exists>p. Encode v = Inr p \<and> reads p v"
  using ParseValue_toBencodeString [of _ "[]"] ParseValue_FormatInt [of _ "[]"]
  by (auto simp: scalar_def reads_def NewString_def NewNumber_def Kind_defs)

lemma Decode_Encode_scalar_list:
  assumes "\<forall>v \<in> set vs. scalar v" and "vs \<noteq> []"
  shows "\<exists>e. Encode (Value Array [] 0 vs []) = Inr e \<and> Decode e = Inr (Value Array [] 0 vs [])"
proof -
  from assms(1) have "\<exists>ps. list_all2 (\<lambda>v p. Encode v = Inr p \<and> reads p v) vs ps"
  proof (induction vs)
    case Nil
    then show ?case by simp
  next
    case (Cons v vs)
    then obtain p ps where "Encode v = Inr p \<and> reads p v"
      and "list_all2 (\<lambda>v p. Encode v = Inr p \<and> reads p v) vs ps"
      using scalar_reads [of v] by auto
    then have "list_all2 (\<lambda>v p. Encode v = Inr p \<and> reads p v) (v # vs) (p # ps)" by simp
    then show ?case by blast
  qed
  then show ?thesis using Decode_Encode_list assms(2) by blast
qed

section \<open>Termination of Decode\<close>

text \<open>
  Claim C10. On every input \<open>b\<close>, well-formed or not, the recursion of \<open>ParseValue\<close> is
  finite, so \<open>Decode\<close> returns a value or an error. The reason is the one the claim gives:
  a successful \<open>ParseValue\<close> returns a cursor strictly shorter than the one it was given,
  so the next iteration of the loop of \<open>ParseArray\<close> starts on a shorter cursor, and so
  does the next iteration of the loop of \<open>ParseObject\<close>, which reads a key and a value.
\<close>

theorem Decode_terminates:
  "ParseValue_ParseArray_ParseArray_loop_ParseObject_ParseObject_loop_dom (Inl (Inl b)) \<and>
   (\<forall>ele b'. ParseValue b = Inr (ele, b') \<longrightarrow> length b' < length b) \<and>
   (\<forall>key b1 attribute b2.
      Context_GetString b = Inr (key, b1) \<and> ParseValue b1 = Inr (attribute, b2) \<longrightarrow>
      length b2 < length b)"
proof (intro conjI allI impI)
  show "ParseValue_ParseArray_ParseArray_loop_ParseObject_ParseObject_loop_dom (Inl (Inl b))"
    by (rule Parse_total)
next
  fix ele b'
  assume "ParseValue b = Inr (ele, b')"
  then show "length b' < length b" by (rule ParseValue_shorter)
next
  fix key b1 attribute b2
  assume "Context_GetString b = Inr (key, b1) \<and> ParseValue b1 = Inr (attribute, b2)"
  then have "length b1 < length b" and "length b2 < length b1"
    by (auto dest: Context_GetString_shorter ParseValue_shorter)
  then show "length b2 < length b" by simp
qed

theorem Decode_terminates_witness:
  "ParseValue ''l4:spame'' = Inr (Value Array [] 0 [NewString ''spam''] [], []) \<and>
   length ([] :: string) < length ''l4:spame'' \<and>
   Context_GetString ''1:ai1ee'' = Inr (''a'', ''i1ee'') \<and>
   ParseValue ''i1ee'' = Inr (NewNumber 1, ''e'') \<and>
   length ''e'' < length ''1:ai1ee''"
  using Decode_terminates [of "''l4:spame''"] Decode_terminates [of "''1:ai1ee''"]
  by (simp add: decode_eval NewString_def NewNumber_def)

section \<open>Encode and Prettify never panic on a value of the data model\<close>

lemma valid_total:
  "valid v \<longrightarrow> (\<exists>s. Encode v = Inr s) \<and> (\<exists>s. Prettify v = Inr s)"
  "valid_array array \<longrightarrow>
     (\<forall>prettify. \<exists>s. Encode_array prettify array = Inr s) \<and>
     (\<forall>prettify. \<exists>s. Prettify_array prettify array = Inr s)"
  "valid_object object \<longrightarrow>
     (\<forall>prettify. \<exists>s. Encode_object prettify object = Inr s) \<and>
     (\<forall>prettify. \<exists>s. Prettify_object prettify object = Inr s)"
proof (induct v and array and object rule: valid_valid_array_valid_object.induct)
  case (1 kind string' number array object)
  show ?case
  proof
    assume v: "valid (Value kind string' number array object)"
    with 1 obtain ea pa eo po where
      "Encode_array ''l'' array = Inr ea" "Prettify_array ''['' array = Inr pa"
      "Encode_object ''d'' object = Inr eo" "Prettify_object ''{'' object = Inr po"
      by (metis valid.simps(1))
    with v show "(\<exists>s. Encode (Value kind string' number array object) = Inr s) \<and>
        (\<exists>s. Prettify (Value kind string' number array object) = Inr s)"
      by auto
  qed
next
  case 2
  show ?case by simp
next
  case (3 a as)
  show ?case
  proof
    assume "valid_array (a # as)"
    then have a: "valid a" and as: "valid_array as" by simp_all
    from a 3 obtain e p where "Encode a = Inr e" "Prettify a = Inr p" by blast
    with as 3 show "(\<forall>prettify. \<exists>s. Encode_array prettify (a # as) = Inr s) \<and>
        (\<forall>prettify. \<exists>s. Prettify_array prettify (a # as) = Inr s)"
      by simp
  qed
next
  case 4
  show ?case by simp
next
  case (5 k v kvs)
  show ?case
  proof
    assume "valid_object ((k, v) # kvs)"
    then have v: "valid v" and kvs: "valid_object kvs" by simp_all
    from v 5 obtain e p where "Encode v = Inr e" "Prettify v = Inr p" by blast
    with kvs 5 show "(\<forall>prettify. \<exists>s. Encode_object prettify ((k, v) # kvs) = Inr s) \<and>
        (\<forall>prettify. \<exists>s. Prettify_object prettify ((k, v) # kvs) = Inr s)"
      by simp
  qed
qed

text \<open>
  Claim C8. On a value whose kind is one of the four constants, and whose nested
  elements are all such values, \<open>Encode\<close> and \<open>Prettify\<close> return a string: neither reaches
  its \<^verbatim>\<open>panic("impossible")\<close>.
\<close>

theorem Encode_Prettify_total:
  "valid v \<longrightarrow>
     (\<exists>s. Encode v = Inr s) \<and> (\<exists>s. Prettify v = Inr s) \<and>
     Encode v \<noteq> Inl Impossible \<and> Prettify v \<noteq> Inl Impossible"
  using valid_total(1) [of v] by auto

theorem Encode_Prettify_total_witness:
  "valid (Value Object [] 0 [] [(''k'', Value Array [] 0 [NewString ''a,'', NewNumber (- 5)] [])]) \<and>
   Encode (Value Object [] 0 [] [(''k'', Value Array [] 0 [NewString ''a,'', NewNumber (- 5)] [])]) =
     Inr ''d1:kl2:a,i-5eee'' \<and>
   Prettify (Value Object [] 0 [] [(''k'', Value Array [] 0 [NewString ''a,'', NewNumber (- 5)] [])]) =
     Inr ([CHR ''{'', CHR 0x22, CHR ''k'', CHR 0x22] @ '': ['' @ [CHR 0x22] @ ''a,'' @ [CHR 0x22] @ '',-5]}'')"
  using Encode_Prettify_total
    [of "Value Object [] 0 [] [(''k'', Value Array [] 0 [NewString ''a,'', NewNumber (- 5)] [])]"]
  by (simp add: Kind_defs NewString_def NewNumber_def toBencodeString_def FormatInt_def
      FormatUint.simps char_of_eq_iff stripComma_def)

text \<open>The hypothesis is needed: a kind outside the four constants reaches the panic.\<close>

lemma Encode_impossible:
  "Encode (Value 4 [] 0 [] []) = Inl Impossible \<and> Prettify (Value 4 [] 0 [] []) = Inl Impossible"
  by (simp add: Kind_defs)

section \<open>Construction helpers on unsupported shapes\<close>

lemma New_outcome:
  "(\<exists>vs. in1 = GoSlice vs) \<longrightarrow> outcome (unsupported in1) (NewArray in1)"
  "outcome (unsupported_slice vs) (NewArray_loop newArrayValue vs)"
  "(\<exists>kvs. in2 = GoMap kvs) \<longrightarrow> outcome (unsupported in2) (NewObject in2)"
  "outcome (unsupported_map kvs) (NewObject_loop newObjectValue kvs)"
proof (induct in1 and newArrayValue vs and in2 and newObjectValue kvs
    rule: NewArray_NewArray_loop_NewObject_NewObject_loop.induct)
  case (9 newValue xs vs)
  show ?case
  proof (cases "unsupported_slice xs")
    case True
    with "9.hyps"(1) have "NewArray (GoSlice xs) = Inr (Inl OnlySupport)"
      by (simp add: outcome_def)
    with True show ?thesis by (simp add: outcome_def)
  next
    case False
    with "9.hyps"(1) obtain newArray where r: "NewArray (GoSlice xs) = Inr (Inr newArray)"
      by (auto simp: outcome_def)
    from "9.hyps"(2) [OF r refl] False r show ?thesis by (simp add: outcome_def)
  qed
next
  case (10 newValue m vs)
  show ?case
  proof (cases "unsupported_map m")
    case True
    with "10.hyps"(1) have "NewObject (GoMap m) = Inr (Inl OnlySupport)"
      by (simp add: outcome_def)
    with True show ?thesis by (simp add: outcome_def)
  next
    case False
    with "10.hyps"(1) obtain newObject where r: "NewObject (GoMap m) = Inr (Inr newObject)"
      by (auto simp: outcome_def)
    from "10.hyps"(2) [OF r refl] False r show ?thesis by (simp add: outcome_def)
  qed
next
  case (20 newValue k xs kvs)
  show ?case
  proof (cases "unsupported_slice xs")
    case True
    with "20.hyps"(1) have "NewArray (GoSlice xs) = Inr (Inl OnlySupport)"
      by (simp add: outcome_def)
    with True show ?thesis by (simp add: outcome_def)
  next
    case False
    with "20.hyps"(1) obtain newArray where r: "NewArray (GoSlice xs) = Inr (Inr newArray)"
      by (auto simp: outcome_def)
    from "20.hyps"(2) [OF r refl] False r show ?thesis by (simp add: outcome_def)
  qed
next
  case (21 newValue k m kvs)
  show ?case
  proof (cases "unsupported_map m")
    case True
    with "21.hyps"(1) have "NewObject (GoMap m) = Inr (Inl OnlySupport)"
      by (simp add: outcome_def)
    with True show ?thesis by (simp add: outcome_def)
  next
    case False
    with "21.hyps"(1) obtain newObject where r: "NewObject (GoMap m) = Inr (Inr newObject)"
      by (auto simp: outcome_def)
    from "21.hyps"(2) [OF r refl] False r show ?thesis by (simp add: outcome_def)
  qed
qed (simp_all add: outcome_def)

text \<open>
  Claim C9, as stated, fails where the argument of a helper is not of the dynamic type
  that its first line asserts: \<open>NewArray\<close> on a mapping and \<open>NewObject\<close> on a sequence
  panic at the type assertion, whether or not the argument holds an unsupported shape.
\<close>

theorem New_unsupported_counterexample:
  "unsupported (GoMap [(''k'', GoOther)]) \<and>
   NewArray (GoMap [(''k'', GoOther)]) = Inl TypeAssertion \<and>
   unsupported (GoSlice [GoOther]) \<and>
   NewObject (GoSlice [GoOther]) = Inl TypeAssertion"
  by simp

text \<open>
  Claim C9, amended. When \<open>NewArray\<close> is given a generic sequence, or \<open>NewObject\<close> a generic
  string-keyed mapping, that holds an unsupported shape at any depth, the helper returns
  the error and no value, and does not panic. When the argument itself is of another
  dynamic type, the helper panics at its type assertion.
\<close>

theorem New_unsupported:
  "(unsupported_slice vs \<longrightarrow> NewArray (GoSlice vs) = Inr (Inl OnlySupport)) \<and>
   (unsupported_map kvs \<longrightarrow> NewObject (GoMap kvs) = Inr (Inl OnlySupport)) \<and>
   ((\<forall>xs. in1 \<noteq> GoSlice xs) \<longrightarrow> NewArray in1 = Inl TypeAssertion) \<and>
   ((\<forall>m. in2 \<noteq> GoMap m) \<longrightarrow> NewObject in2 = Inl TypeAssertion)"
proof (intro conjI impI)
  show "NewArray (GoSlice vs) = Inr (Inl OnlySupport)" if "unsupported_slice vs"
    using that New_outcome(1) [of "GoSlice vs"] by (simp add: outcome_def)
  show "NewObject (GoMap kvs) = Inr (Inl OnlySupport)" if "unsupported_map kvs"
    using that New_outcome(3) [of "GoMap kvs"] by (simp add: outcome_def)
  show "NewArray in1 = Inl TypeAssertion" if "\<forall>xs. in1 \<noteq> GoSlice xs"
    using that by (cases in1) simp_all
  show "NewObject in2 = Inl TypeAssertion" if "\<forall>m. in2 \<noteq> GoMap m"
    using that by (cases in2) simp_all
qed

theorem New_unsupported_witness:
  "unsupported_slice [GoInt 1, GoSlice [GoString ''a'', GoMap [(''k'', GoOther)]], GoString ''b''] \<and>
   NewArray (GoSlice [GoInt 1, GoSlice [GoString ''a'', GoMap [(''k'', GoOther)]], GoString ''b'']) =
     Inr (Inl OnlySupport) \<and>
   unsupported_map [(''x'', GoInt 1), (''y'', GoSlice [GoOther])] \<and>
   NewObject (GoMap [(''x'', GoInt 1), (''y'', GoSlice [GoOther])]) = Inr (Inl OnlySupport) \<and>
   (\<forall>xs. GoString ''a'' \<noteq> GoSlice xs) \<and> NewArray (GoString ''a'') = Inl TypeAssertion \<and>
   (\<forall>m. GoInt 7 \<noteq> GoMap m) \<and> NewObject (GoInt 7) = Inl TypeAssertion"
  using New_unsupported
    [of "[GoInt 1, GoSlice [GoString ''a'', GoMap [(''k'', GoOther)]], GoString ''b'']"
        "[(''x'', GoInt 1), (''y'', GoSlice [GoOther])]" "GoString ''a''" "GoInt 7"]
  by simp

end
